theory Spec2Isabelle
  imports Main "HOL-Library.Word"
begin

unbundle bit_operations_syntax

section \<open>Bytes, errors and outcomes\<close>

text \<open>
  A Go \<^verbatim>\<open>[]byte\<close> is a list of 8-bit words (\<^verbatim>\<open>nil\<close> and the empty slice are both
  \<open>[]\<close>); a Go \<^verbatim>\<open>string\<close> is a \<open>string\<close>. The error values are the ones
  \<^verbatim>\<open>credentials.go\<close> builds or passes on from the libraries it calls.
\<close>

type_synonym byte = "8 word"
type_synonym bytes = "byte list"

datatype error =
    InvalidNodeIDLength nat
  | ErrorSerializingHMACBody error
  | CouldntRetrieveHash
  | ErrorRecreatingMAC error
  | CredentialMACMismatch
  | CorruptInputError
  | ErrUnexpectedEOF
  | EOF
  | InvalidByteError char
  | ErrLength
  | ErrDecode
  | MarshalFailure
  | SyntaxError
  | UnmarshalTypeError string

text \<open>A call returns a value, returns a Go error, or panics (a nil dereference).\<close>

datatype 'a outcome = Ok 'a | Err error | Panic

section \<open>crypto/sha256 and crypto/hmac\<close>

definition rotr :: "nat \<Rightarrow> 32 word \<Rightarrow> 32 word" where
  "rotr n x = word_rotr n x"

definition Ch :: "32 word \<Rightarrow> 32 word \<Rightarrow> 32 word \<Rightarrow> 32 word" where
  "Ch x y z = (x AND y) XOR (NOT x AND z)"

definition Maj :: "32 word \<Rightarrow> 32 word \<Rightarrow> 32 word \<Rightarrow> 32 word" where
  "Maj x y z = (x AND y) XOR (x AND z) XOR (y AND z)"

definition Sigma0 :: "32 word \<Rightarrow> 32 word" where
  "Sigma0 x = rotr 2 x XOR rotr 13 x XOR rotr 22 x"

definition Sigma1 :: "32 word \<Rightarrow> 32 word" where
  "Sigma1 x = rotr 6 x XOR rotr 11 x XOR rotr 25 x"

definition sigma0 :: "32 word \<Rightarrow> 32 word" where
  "sigma0 x = rotr 7 x XOR rotr 18 x XOR drop_bit 3 x"

definition sigma1 :: "32 word \<Rightarrow> 32 word" where
  "sigma1 x = rotr 17 x XOR rotr 19 x XOR drop_bit 10 x"

text \<open>
  The constants as FIPS 180-4 defines them: the first 32 bits of the fractional parts of
  the cube roots of the first 64 primes (the round constants) and of the square roots of
  the first 8 primes (the initial hash value).
\<close>

definition is_prime :: "nat \<Rightarrow> bool" where
  "is_prime n \<longleftrightarrow> 1 < n \<and> filter (\<lambda>d. n mod d = 0) [2..<n] = []"

definition first_primes :: "nat \<Rightarrow> nat list" where
  "first_primes n = take n (filter is_prime [2..<312])"

definition floor_root :: "nat \<Rightarrow> int \<Rightarrow> int" where
  "floor_root k n = foldl (\<lambda>r b. if (r + 2 ^ b) ^ k \<le> n then r + 2 ^ b else r) 0 (rev [0..<64])"

definition sha256_K :: "32 word list" where
  "sha256_K = map (\<lambda>p. of_int (floor_root 3 (int p * 2 ^ 96))) (first_primes 64)"

definition sha256_init :: "32 word list" where
  "sha256_init = map (\<lambda>p. of_int (floor_root 2 (int p * 2 ^ 64))) (first_primes 8)"

text \<open>Big-endian conversions between bytes and 32-bit and 64-bit words.\<close>

definition be32 :: "bytes \<Rightarrow> 32 word" where
  "be32 bs = foldl (\<lambda>acc b. push_bit 8 acc OR ucast b) 0 (take 4 bs)"

definition be32_bytes :: "32 word \<Rightarrow> bytes" where
  "be32_bytes w = [ucast (drop_bit 24 w), ucast (drop_bit 16 w), ucast (drop_bit 8 w), ucast w]"

definition be64_bytes :: "64 word \<Rightarrow> bytes" where
  "be64_bytes w = map (\<lambda>i. ucast (drop_bit (8 * (7 - i)) w)) [0..<8]"

fun chunks :: "nat \<Rightarrow> 'a list \<Rightarrow> 'a list list" where
  "chunks n [] = []"
| "chunks n (x # xs) = (if n = 0 then [] else take n (x # xs) # chunks n (drop n (x # xs)))"

text \<open>The message schedule: sixteen words of the block, extended to sixty-four.\<close>

fun schedule :: "nat \<Rightarrow> 32 word list \<Rightarrow> 32 word list" where
  "schedule 0 w = w"
| "schedule (Suc n) w =
     schedule n (w @ [sigma1 (w ! (length w - 2)) + w ! (length w - 7)
                      + sigma0 (w ! (length w - 15)) + w ! (length w - 16)])"

definition sha256_round :: "32 word list \<Rightarrow> 32 word \<times> 32 word \<Rightarrow> 32 word list" where
  "sha256_round v kw =
     (case v of
        [a, b, c, d, e, f, g, h] \<Rightarrow>
          (let t1 = h + Sigma1 e + Ch e f g + fst kw + snd kw;
               t2 = Sigma0 a + Maj a b c
           in [t1 + t2, a, b, c, d + t1, e, f, g])
      | _ \<Rightarrow> v)"

definition sha256_block :: "32 word list \<Rightarrow> bytes \<Rightarrow> 32 word list" where
  "sha256_block hs block =
     (let w = schedule 48 (map be32 (chunks 4 block));
          v = foldl sha256_round hs (zip sha256_K w)
      in map2 (+) hs v)"

definition sha256_pad :: "bytes \<Rightarrow> bytes" where
  "sha256_pad m =
     m @ [0x80] @ replicate ((119 - length m mod 64) mod 64) 0
       @ be64_bytes (of_nat (8 * length m))"

definition sha256 :: "bytes \<Rightarrow> bytes" where
  "sha256 m = concat (map be32_bytes (foldl sha256_block sha256_init (chunks 64 (sha256_pad m))))"

text \<open>
  \<^verbatim>\<open>hmac.New(sha256.New, key)\<close>: a key longer than the block size of 64 bytes is hashed
  first, then padded with zeros to the block size.
\<close>

definition hmac_key_block :: "bytes \<Rightarrow> bytes" where
  "hmac_key_block key =
     (let k = (if length key > 64 then sha256 key else key)
      in k @ replicate (64 - length k) 0)"

definition hmac_sha256 :: "bytes \<Rightarrow> bytes \<Rightarrow> bytes" where
  "hmac_sha256 key m =
     (let kb = hmac_key_block key;
          ipad = map (\<lambda>b. b XOR 0x36) kb;
          opad = map (\<lambda>b. b XOR 0x5c) kb
      in sha256 (opad @ sha256 (ipad @ m)))"

section \<open>The messages of package pb\<close>

text \<open>
  Modelled from the spec: the generated package \<^verbatim>\<open>pb\<close> (the declarations of the two
  protobuf messages) is not among the sources. The spec gives the fields: a Credential
  has \<open>node_id\<close> (bytes), \<open>operator_type\<close> (a small integer enum) and \<open>timestamp\<close>
  (signed 64-bit); an AuthenticatedCredential owns one Credential (a pointer, possibly
  nil) and has \<open>mac\<close> (bytes). A message of the Go protobuf runtime also keeps the
  fields it could not interpret when it was parsed (\<open>unknownFields\<close>). The field
  numbers are not in the spec; they are taken in the order in which
  \<^verbatim>\<open>jsonAuthenticatedCredential\<close> lists the fields.
\<close>

type_synonym OperatorType = "32 word"

record pb_Credential =
  NodeId :: bytes
  Timestamp :: "64 word"
  OperatorType :: OperatorType
  unknownFields :: bytes

text \<open>
  The outer message, with \<open>'c\<close> what its \<open>Credential\<close> field holds: a pointer for an
  object in memory, the inner message itself for the value that is serialised.
\<close>

record 'c pb_AuthenticatedCredential =
  Credential :: "'c option"
  Mac :: bytes
  unknownFieldsAC :: bytes

definition field_node_id :: "64 word" where "field_node_id = 1"
definition field_timestamp :: "64 word" where "field_timestamp = 2"
definition field_operator_type :: "64 word" where "field_operator_type = 3"
definition field_credential :: "64 word" where "field_credential = 1"
definition field_mac :: "64 word" where "field_mac = 2"

section \<open>The protobuf wire format: encoding\<close>

definition VarintType :: "64 word" where "VarintType = 0"
definition Fixed64Type :: "64 word" where "Fixed64Type = 1"
definition BytesType :: "64 word" where "BytesType = 2"
definition StartGroupType :: "64 word" where "StartGroupType = 3"
definition EndGroupType :: "64 word" where "EndGroupType = 4"
definition Fixed32Type :: "64 word" where "Fixed32Type = 5"

text \<open>\<^verbatim>\<open>protowire.AppendVarint\<close>: seven bits a byte, least significant first.\<close>

function AppendVarint :: "64 word \<Rightarrow> bytes" where
  "AppendVarint v =
     (if v < 0x80 then [ucast v]
      else (ucast (v AND 0x7f) OR 0x80) # AppendVarint (drop_bit 7 v))"
  by pat_completeness auto
termination
proof (relation "measure unat")
  show "wf (measure (unat :: 64 word \<Rightarrow> nat))" by simp
next
  fix v :: "64 word"
  assume "\<not> v < 0x80"
  then have "128 \<le> unat v"
    by (simp add: word_less_nat_alt not_less)
  then have "unat v div 2 ^ 7 < unat v"
    by simp
  moreover have "unat (drop_bit 7 v) = unat v div 2 ^ 7"
    by (simp add: drop_bit_eq_div unat_div)
  ultimately show "(drop_bit 7 v, v) \<in> measure unat"
    by simp
qed

declare AppendVarint.simps [simp del]

definition AppendTag :: "64 word \<Rightarrow> 64 word \<Rightarrow> bytes" where
  "AppendTag num typ = AppendVarint (push_bit 3 num OR (typ AND 7))"

definition AppendBytes :: "bytes \<Rightarrow> bytes" where
  "AppendBytes v = AppendVarint (of_nat (length v)) @ v"

text \<open>
  A proto3 message: a field holding its zero value is left out, the others follow in the
  order of their numbers, the unknown fields last. An enum is written as the varint of
  its sign-extended number.
\<close>

definition encode_Credential :: "pb_Credential \<Rightarrow> bytes" where
  "encode_Credential c =
     (if NodeId c = [] then [] else AppendTag field_node_id BytesType @ AppendBytes (NodeId c))
   @ (if Timestamp c = 0 then [] else AppendTag field_timestamp VarintType @ AppendVarint (Timestamp c))
   @ (if OperatorType c = 0 then []
      else AppendTag field_operator_type VarintType @ AppendVarint (scast (OperatorType c)))
   @ unknownFields c"

definition encode_AuthenticatedCredential :: "pb_Credential pb_AuthenticatedCredential \<Rightarrow> bytes" where
  "encode_AuthenticatedCredential m =
     (case Credential m of
        None \<Rightarrow> []
      | Some c \<Rightarrow> AppendTag field_credential BytesType @ AppendBytes (encode_Credential c))
   @ (if Mac m = [] then [] else AppendTag field_mac BytesType @ AppendBytes (Mac m))
   @ unknownFieldsAC m"

text \<open>
  What \<^verbatim>\<open>proto.Marshal\<close> is handed: a \<^verbatim>\<open>*pb.Credential\<close> or a
  \<^verbatim>\<open>*pb.AuthenticatedCredential\<close>, either of them possibly nil.
\<close>

datatype message =
    CredentialMessage "pb_Credential option"
  | AuthenticatedCredentialMessage "pb_Credential pb_AuthenticatedCredential option"

text \<open>
  \<^verbatim>\<open>proto.Marshal\<close> returns bytes or an error, and the source handles the error of
  both of its calls. Which messages the library refuses is the library's matter, so the
  functions of the source take the marshaller as a parameter. \<open>wire_Marshal\<close> is the
  marshaller of the wire format above, which refuses none (a nil message is the empty
  encoding).
\<close>

type_synonym marshaller = "message \<Rightarrow> error + bytes"

definition wire_Marshal :: marshaller where
  "wire_Marshal m =
     (case m of
        CredentialMessage None \<Rightarrow> Inr []
      | CredentialMessage (Some c) \<Rightarrow> Inr (encode_Credential c)
      | AuthenticatedCredentialMessage None \<Rightarrow> Inr []
      | AuthenticatedCredentialMessage (Some a) \<Rightarrow> Inr (encode_AuthenticatedCredential a))"

section \<open>Memory\<close>

text \<open>
  The source works on pointers: \<^verbatim>\<open>Verify\<close> lends the inner message of its argument
  to a temporary, \<^verbatim>\<open>Base64URLEncodePassword\<close> writes to the inner message of its
  receiver and the decoders overwrite theirs. The store holds the objects of the two
  message types; a pointer is an index into it, Go's nil pointer is \<open>None\<close>, and an
  allocation appends.
\<close>

type_synonym ptr = nat

record store =
  credentials :: "pb_Credential list"
  envelopes :: "ptr pb_AuthenticatedCredential list"

definition credential_at :: "store \<Rightarrow> ptr \<Rightarrow> pb_Credential option" where
  "credential_at s p = (if p < length (credentials s) then Some (credentials s ! p) else None)"

definition envelope_at :: "store \<Rightarrow> ptr \<Rightarrow> ptr pb_AuthenticatedCredential option" where
  "envelope_at s p = (if p < length (envelopes s) then Some (envelopes s ! p) else None)"

definition new_Credential :: "pb_Credential \<Rightarrow> store \<Rightarrow> ptr \<times> store" where
  "new_Credential c s = (length (credentials s), s\<lparr>credentials := credentials s @ [c]\<rparr>)"

definition new_envelope :: "ptr pb_AuthenticatedCredential \<Rightarrow> store \<Rightarrow> ptr \<times> store" where
  "new_envelope a s = (length (envelopes s), s\<lparr>envelopes := envelopes s @ [a]\<rparr>)"

definition set_credential :: "ptr \<Rightarrow> pb_Credential \<Rightarrow> store \<Rightarrow> store" where
  "set_credential p c s = s\<lparr>credentials := (credentials s)[p := c]\<rparr>"

definition set_envelope :: "ptr \<Rightarrow> ptr pb_AuthenticatedCredential \<Rightarrow> store \<Rightarrow> store" where
  "set_envelope p a s = s\<lparr>envelopes := (envelopes s)[p := a]\<rparr>"

definition empty_Credential :: pb_Credential where
  "empty_Credential = \<lparr>NodeId = [], Timestamp = 0, OperatorType = 0, unknownFields = []\<rparr>"

definition empty_envelope :: "'c pb_AuthenticatedCredential" where
  "empty_envelope = \<lparr>Credential = None, Mac = [], unknownFieldsAC = []\<rparr>"

text \<open>The inner message an envelope points to, and the envelope as the value it stands for.\<close>

definition inner :: "store \<Rightarrow> ptr pb_AuthenticatedCredential \<Rightarrow> pb_Credential option" where
  "inner s a = (case Credential a of None \<Rightarrow> None | Some q \<Rightarrow> credential_at s q)"

definition deref :: "store \<Rightarrow> ptr pb_AuthenticatedCredential \<Rightarrow> pb_Credential pb_AuthenticatedCredential" where
  "deref s a = \<lparr>Credential = inner s a, Mac = Mac a, unknownFieldsAC = unknownFieldsAC a\<rparr>"

definition load :: "store \<Rightarrow> ptr \<Rightarrow> pb_Credential pb_AuthenticatedCredential option" where
  "load s p = map_option (deref s) (envelope_at s p)"

definition modify_credential :: "ptr \<Rightarrow> (pb_Credential \<Rightarrow> pb_Credential) \<Rightarrow> store \<Rightarrow> store" where
  "modify_credential p f s = s\<lparr>credentials := (credentials s)[p := f (credentials s ! p)]\<rparr>"

definition modify_envelope ::
  "ptr \<Rightarrow> (ptr pb_AuthenticatedCredential \<Rightarrow> ptr pb_AuthenticatedCredential) \<Rightarrow> store \<Rightarrow> store" where
  "modify_envelope p f s = s\<lparr>envelopes := (envelopes s)[p := f (envelopes s ! p)]\<rparr>"

section \<open>The keyed hash and the pool\<close>

text \<open>
  The \<^verbatim>\<open>hash.Hash\<close> that \<^verbatim>\<open>hmac.New(sha256.New, key)\<close> returns: its key and the bytes
  written since the last \<^verbatim>\<open>Reset\<close>. \<^verbatim>\<open>Sum(b)\<close> appends the MAC of what was written to
  \<open>b\<close> and leaves the hash as it is.
\<close>

record hmac_hash =
  hkey :: bytes
  written :: bytes

definition hmac_New :: "bytes \<Rightarrow> hmac_hash" where
  "hmac_New key = \<lparr>hkey = key, written = []\<rparr>"

definition hash_Write :: "hmac_hash \<Rightarrow> bytes \<Rightarrow> hmac_hash" where
  "hash_Write h p = h\<lparr>written := written h @ p\<rparr>"

definition hash_Sum :: "hmac_hash \<Rightarrow> bytes \<Rightarrow> bytes" where
  "hash_Sum h b = b @ hmac_sha256 (hkey h) (written h)"

definition hash_Reset :: "hmac_hash \<Rightarrow> hmac_hash" where
  "hash_Reset h = h\<lparr>written := []\<rparr>"

text \<open>
  \<^verbatim>\<open>subtle.ConstantTimeByteEq\<close>, \<^verbatim>\<open>subtle.ConstantTimeCompare\<close> and \<^verbatim>\<open>hmac.Equal\<close>, as
  the values they compute.
\<close>

definition ConstantTimeByteEq :: "byte \<Rightarrow> byte \<Rightarrow> nat" where
  "ConstantTimeByteEq x y = unat (drop_bit 31 ((ucast (x XOR y) :: 32 word) - 1))"

definition ConstantTimeCompare :: "bytes \<Rightarrow> bytes \<Rightarrow> nat" where
  "ConstantTimeCompare x y =
     (if length x \<noteq> length y then 0
      else ConstantTimeByteEq (foldl (\<lambda>v ab. v OR (fst ab XOR snd ab)) 0 (zip x y)) 0)"

definition hmac_Equal :: "bytes \<Rightarrow> bytes \<Rightarrow> bool" where
  "hmac_Equal mac1 mac2 = (ConstantTimeCompare mac1 mac2 = 1)"

text \<open>
  A \<^verbatim>\<open>sync.Pool\<close> holds values of any type: a caller can \<^verbatim>\<open>Put\<close> what it likes into
  the pool a CredentialManager embeds, and the zero CredentialManager has no \<^verbatim>\<open>New\<close>.
  \<^verbatim>\<open>Get\<close> hands out a pooled value, else what \<^verbatim>\<open>New\<close> makes, else nil.
\<close>

datatype any = Hash hmac_hash | NotAHash

record CredentialManager =
  New :: "(unit \<Rightarrow> any) option"
  pooled :: "any list"

definition Get :: "CredentialManager \<Rightarrow> any option \<times> CredentialManager" where
  "Get c =
     (case pooled c of
        x # xs \<Rightarrow> (Some x, c\<lparr>pooled := xs\<rparr>)
      | [] \<Rightarrow> (case New c of None \<Rightarrow> (None, c) | Some f \<Rightarrow> (Some (f ()), c)))"

definition Put :: "any \<Rightarrow> CredentialManager \<Rightarrow> CredentialManager" where
  "Put x c = c\<lparr>pooled := x # pooled c\<rparr>"

section \<open>The CredentialManager\<close>

definition NewCredentialManager :: "bytes \<Rightarrow> CredentialManager" where
  "NewCredentialManager key = \<lparr>New = Some (\<lambda>_. Hash (hmac_New key)), pooled = []\<rparr>"

definition authenticateCredential ::
  "marshaller \<Rightarrow> CredentialManager \<Rightarrow> ptr \<Rightarrow> store \<Rightarrow> unit outcome \<times> CredentialManager \<times> store" where
  "authenticateCredential pm c credential s =
     (case envelope_at s credential of
        None \<Rightarrow> (Panic, c, s)
      | Some a \<Rightarrow>
          (case pm (CredentialMessage (inner s a)) of
             Inl err \<Rightarrow> (Err (ErrorSerializingHMACBody err), c, s)
           | Inr bytes \<Rightarrow>
               (case Get c of
                  (Some (Hash h), c1) \<Rightarrow>
                    (let h1 = hash_Write h bytes;
                         s1 = modify_envelope credential (\<lambda>a. a\<lparr>Mac := hash_Sum h1 []\<rparr>) s;
                         h2 = hash_Reset h1
                     in (Ok (), Put (Hash h2) c1, s1))
                | (_, c1) \<Rightarrow> (Err CouldntRetrieveHash, c1, s))))"

text \<open>\<^verbatim>\<open>time.Time\<close> and its \<^verbatim>\<open>Unix()\<close>: the seconds since the epoch, as an int64.\<close>

record Time =
  seconds :: "64 word"
  nanoseconds :: "32 word"

definition Unix :: "Time \<Rightarrow> 64 word" where
  "Unix t = seconds t"

definition Create ::
  "marshaller \<Rightarrow> CredentialManager \<Rightarrow> Time \<Rightarrow> bytes \<Rightarrow> OperatorType \<Rightarrow> store
     \<Rightarrow> ptr outcome \<times> CredentialManager \<times> store" where
  "Create pm c timestamp nodeID operatorType s =
     (if length nodeID \<noteq> 20 then (Err (InvalidNodeIDLength (length nodeID)), c, s)
      else
        (case new_envelope empty_envelope s of (message, s1) \<Rightarrow>
         case new_Credential empty_Credential s1 of (cred, s2) \<Rightarrow>
           (let s3 = modify_envelope message (\<lambda>a. a\<lparr>Credential := Some cred\<rparr>) s2;
                s4 = modify_credential cred (\<lambda>x. x\<lparr>NodeId := nodeID\<rparr>) s3;
                s5 = modify_credential cred (\<lambda>x. x\<lparr>OperatorType := operatorType\<rparr>) s4;
                s6 = modify_credential cred (\<lambda>x. x\<lparr>Timestamp := Unix timestamp\<rparr>) s5
            in case authenticateCredential pm c message s6 of
                 (Ok _, c', s') \<Rightarrow> (Ok message, c', s')
               | (Err err, c', s') \<Rightarrow> (Err err, c', s')
               | (Panic, c', s') \<Rightarrow> (Panic, c', s'))))"

definition Verify ::
  "marshaller \<Rightarrow> CredentialManager \<Rightarrow> ptr \<Rightarrow> store \<Rightarrow> unit outcome \<times> CredentialManager \<times> store" where
  "Verify pm c authenticatedCredential s =
     (case envelope_at s authenticatedCredential of
        None \<Rightarrow> (Panic, c, s)
      | Some given \<Rightarrow>
          (case new_envelope empty_envelope s of (tmp, s1) \<Rightarrow>
            (let s2 = modify_envelope tmp (\<lambda>a. a\<lparr>Credential := Credential given\<rparr>) s1
             in case authenticateCredential pm c tmp s2 of
                  (Err err, c', s') \<Rightarrow> (Err (ErrorRecreatingMAC err), c', s')
                | (Panic, c', s') \<Rightarrow> (Panic, c', s')
                | (Ok _, c', s') \<Rightarrow>
                    (case (envelope_at s' tmp, envelope_at s' authenticatedCredential) of
                       (Some t, Some a) \<Rightarrow>
                         if \<not> hmac_Equal (Mac t) (Mac a) then (Err CredentialMACMismatch, c', s')
                         else (Ok (), c', s')
                     | _ \<Rightarrow> (Panic, c', s')))))"

text \<open>
  A manager holds \<open>key\<close> when it is as \<^verbatim>\<open>NewCredentialManager key\<close> made it and as
  \<^verbatim>\<open>Create\<close> and \<^verbatim>\<open>Verify\<close> leave it: \<^verbatim>\<open>New\<close> makes hashes keyed with \<open>key\<close>, and
  every pooled value is such a hash with nothing written to it.
\<close>

definition holds_key :: "bytes \<Rightarrow> CredentialManager \<Rightarrow> bool" where
  "holds_key key c \<longleftrightarrow>
     New c = Some (\<lambda>_. Hash (hmac_New key)) \<and> pooled c = replicate (length (pooled c)) (Hash (hmac_New key))"

text \<open>The inner message \<^verbatim>\<open>Create\<close> builds, and the temporary of \<^verbatim>\<open>Verify\<close>.\<close>

definition created :: "bytes \<Rightarrow> Time \<Rightarrow> OperatorType \<Rightarrow> pb_Credential" where
  "created nodeID t ot = \<lparr>NodeId = nodeID, Timestamp = Unix t, OperatorType = ot, unknownFields = []\<rparr>"

definition lent :: "ptr pb_AuthenticatedCredential \<Rightarrow> bytes \<Rightarrow> ptr pb_AuthenticatedCredential" where
  "lent a mac = \<lparr>Credential = Credential a, Mac = mac, unknownFieldsAC = []\<rparr>"

text \<open>The zero value of the type: no \<^verbatim>\<open>New\<close>, an empty pool.\<close>

definition zero_manager :: CredentialManager where
  "zero_manager = \<lparr>New = None, pooled = []\<rparr>"

section \<open>encoding/base64 and encoding/hex\<close>

text \<open>
  \<^verbatim>\<open>base64.URLEncoding\<close>: the URL-safe alphabet, padded with \<open>=\<close>. Three bytes make a
  24-bit value that is cut into four 6-bit digits; one or two bytes left over make two or
  three digits and the padding.
\<close>

definition encodeURL :: string where
  "encodeURL = ''ABCDEFGHIJKLMNOPQRSTUVWXYZabcdefghijklmnopqrstuvwxyz0123456789-_''"

fun index_of :: "'a list \<Rightarrow> 'a \<Rightarrow> nat option" where
  "index_of [] c = None"
| "index_of (x # xs) c = (if x = c then Some 0 else map_option Suc (index_of xs c))"

definition val3 :: "byte \<Rightarrow> byte \<Rightarrow> byte \<Rightarrow> 32 word" where
  "val3 a b c = push_bit 16 (ucast a) OR push_bit 8 (ucast b) OR ucast c"

definition bytes3 :: "32 word \<Rightarrow> bytes" where
  "bytes3 v = [ucast (drop_bit 16 v), ucast (drop_bit 8 v), ucast v]"

definition sextet :: "nat \<Rightarrow> 32 word \<Rightarrow> 32 word" where
  "sextet i v = drop_bit (18 - 6 * i) v AND 0x3f"

definition from_sextets :: "32 word \<Rightarrow> 32 word \<Rightarrow> 32 word \<Rightarrow> 32 word \<Rightarrow> 32 word" where
  "from_sextets x y z w = push_bit 18 x OR push_bit 12 y OR push_bit 6 z OR w"

definition enc :: "32 word \<Rightarrow> char" where
  "enc v = encodeURL ! unat v"

definition dec :: "char \<Rightarrow> 32 word option" where
  "dec ch = map_option of_nat (index_of encodeURL ch)"

fun base64_Encode :: "bytes \<Rightarrow> string" where
  "base64_Encode (a # b # c # rest) =
     (let v = val3 a b c
      in [enc (sextet 0 v), enc (sextet 1 v), enc (sextet 2 v), enc (sextet 3 v)] @ base64_Encode rest)"
| "base64_Encode [a, b] =
     (let v = val3 a b 0 in [enc (sextet 0 v), enc (sextet 1 v), enc (sextet 2 v), CHR ''=''])"
| "base64_Encode [a] =
     (let v = val3 a 0 0 in [enc (sextet 0 v), enc (sextet 1 v), CHR ''='', CHR ''=''])"
| "base64_Encode [] = []"

text \<open>
  \<^verbatim>\<open>(*Encoding).Decode\<close> of \<^verbatim>\<open>base64.URLEncoding\<close>, on a piece of input without line
  breaks (the decoder below gives it no other): every four characters are a quantum,
  padding is accepted in the last quantum of the piece only, and a piece that is no
  whole number of quanta is corrupt. The bytes decoded before an error are dropped:
  neither caller looks at them.
\<close>

definition after_padding :: "string \<Rightarrow> bytes \<Rightarrow> error + bytes" where
  "after_padding rest out = (if rest = [] then Inr out else Inl CorruptInputError)"

fun Decode :: "string \<Rightarrow> error + bytes" where
  "Decode (a # b # c # d # rest) =
     (case (dec a, dec b) of
        (Some x, Some y) \<Rightarrow>
          (case dec c of
             Some z \<Rightarrow>
               (case dec d of
                  Some w \<Rightarrow>
                    (case Decode rest of
                       Inl err \<Rightarrow> Inl err
                     | Inr out \<Rightarrow> Inr (bytes3 (from_sextets x y z w) @ out))
                | None \<Rightarrow>
                    if d = CHR ''='' then after_padding rest (take 2 (bytes3 (from_sextets x y z 0)))
                    else Inl CorruptInputError)
           | None \<Rightarrow>
               if c = CHR ''='' \<and> d = CHR ''=''
               then after_padding rest (take 1 (bytes3 (from_sextets x y 0 0)))
               else Inl CorruptInputError)
      | _ \<Rightarrow> Inl CorruptInputError)"
| "Decode [] = Inr []"
| "Decode _ = Inl CorruptInputError"

text \<open>
  The readers under the decoder. \<^verbatim>\<open>(*bytes.Reader).Read\<close> into a slice of \<open>n\<close> bytes
  gives the next \<open>n\<close> bytes of what is left, and \<^verbatim>\<open>io.EOF\<close> once nothing is left. The
  \<^verbatim>\<open>newlineFilteringReader\<close> that \<^verbatim>\<open>base64.NewDecoder\<close> puts around it drops carriage
  returns and line feeds from what it has read, and reads again when nothing else was
  read. A read gives the bytes, the error and what is left to read.
\<close>

definition line_break :: "char \<Rightarrow> bool" where
  "line_break ch \<longleftrightarrow> ch = CHR 0x0D \<or> ch = CHR 0x0A"

definition Reader_Read :: "nat \<Rightarrow> string \<Rightarrow> string \<times> error option \<times> string" where
  "Reader_Read n s = (if s = [] then ([], Some EOF, s) else (take n s, None, drop n s))"

function newlineFilteringReader_Read :: "nat \<Rightarrow> string \<Rightarrow> string \<times> error option \<times> string" where
  "newlineFilteringReader_Read n s =
     (case Reader_Read n s of (p, e, s') \<Rightarrow>
        if p = [] then ([], e, s')
        else if filter (\<lambda>b. \<not> line_break b) p \<noteq> [] then (filter (\<lambda>b. \<not> line_break b) p, e, s')
        else newlineFilteringReader_Read n s')"
  by pat_completeness auto
termination
  by (relation "measure (\<lambda>(n, s). length s)") (auto simp: Reader_Read_def split: if_splits)

declare newlineFilteringReader_Read.simps [simp del]

text \<open>
  The \<^verbatim>\<open>decoder\<close> of package base64: its sticky error, the error of its reader, the
  reader (as what it has left to give), the input read and not yet decoded
  (\<^verbatim>\<open>buf[:nbuf]\<close>, of 1024 bytes at most) and the output decoded and not yet given.
\<close>

record decoder =
  d_err :: "error option"
  d_readErr :: "error option"
  d_r :: string
  d_buf :: string
  d_out :: bytes

definition NewDecoder :: "string \<Rightarrow> decoder" where
  "NewDecoder s = \<lparr>d_err = None, d_readErr = None, d_r = s, d_buf = [], d_out = []\<rparr>"

lemma newlineFilteringReader_Read_cases:
  assumes "0 < n" and "newlineFilteringReader_Read n s = (p, e, s')"
  shows "(p \<noteq> [] \<and> e = None \<or> p = [] \<and> e = Some EOF \<and> s' = []) \<and>
         p @ filter (\<lambda>b. \<not> line_break b) s' = filter (\<lambda>b. \<not> line_break b) s \<and>
         length p + length s' \<le> length s \<and> length p \<le> n"
  using assms
proof (induction n s rule: newlineFilteringReader_Read.induct)
  case (1 n s)
  show ?case
  proof (cases "s = []")
    case Nil: True
    have "newlineFilteringReader_Read n s = ([], Some EOF, [])"
      by (simp add: newlineFilteringReader_Read.simps[of n "[]"] Nil Reader_Read_def)
    with "1.prems" Nil show ?thesis by simp
  next
    case ne: False
    let ?k = "filter (\<lambda>b. \<not> line_break b) (take n s)"
    have tk: "take n s \<noteq> []" using ne "1.prems"(1) by (cases s) auto
    have rr: "Reader_Read n s = (take n s, None, drop n s)" using ne by (simp add: Reader_Read_def)
    have split: "filter (\<lambda>b. \<not> line_break b) s = ?k @ filter (\<lambda>b. \<not> line_break b) (drop n s)"
      by (metis append_take_drop_id filter_append)
    show ?thesis
    proof (cases "?k = []")
      case True
      have "newlineFilteringReader_Read n s = newlineFilteringReader_Read n (drop n s)"
        using ne "1.prems"(1) True by (simp add: newlineFilteringReader_Read.simps[of n s] rr)
      with "1.prems" have r: "newlineFilteringReader_Read n (drop n s) = (p, e, s')" by simp
      from "1.IH"[OF rr[symmetric] refl tk _ "1.prems"(1) r] True
      show ?thesis using split True by auto
    next
      case k: False
      have "newlineFilteringReader_Read n s = (?k, None, drop n s)"
        using ne "1.prems"(1) k by (simp add: newlineFilteringReader_Read.simps[of n s] rr)
      with "1.prems"(2) have pes: "p = ?k" "e = None" "s' = drop n s" by simp_all
      have "length ?k \<le> length (take n s)" by (rule length_filter_le)
      then have "length ?k \<le> n" "length ?k + length (drop n s) \<le> length s" by auto
      with pes k split show ?thesis by simp
    qed
  qed
qed

text \<open>
  \<^verbatim>\<open>(*decoder).Read\<close> into a slice of \<open>plen\<close> bytes. While fewer than four characters
  are buffered and the reader has given no error, the buffer is refilled up to
  \<open>plen / 3 * 4\<close> characters (four at least, 1024 at most). With fewer than four
  characters left the read ends: in \<^verbatim>\<open>io.EOF\<close> when none is left, in
  \<^verbatim>\<open>io.ErrUnexpectedEOF\<close> otherwise. Else the whole quanta of the buffer are decoded, as
  one piece, and what does not fit the slice is kept for the next read.
\<close>

function refill :: "nat \<Rightarrow> decoder \<Rightarrow> decoder" where
  "refill plen d =
     (if length (d_buf d) < 4 \<and> d_readErr d = None then
        (let nn = plen div 3 * 4;
             nn = (if nn < 4 then 4 else nn);
             nn = (if nn > 1024 then 1024 else nn)
         in case newlineFilteringReader_Read (nn - length (d_buf d)) (d_r d) of (p, e, s') \<Rightarrow>
              refill plen (d\<lparr>d_readErr := e, d_r := s', d_buf := d_buf d @ p\<rparr>))
      else d)"
  by pat_completeness auto
termination
proof (relation "measure (\<lambda>(plen, d). if d_readErr d = None then 5 - length (d_buf d) else 0)", goal_cases)
  case 1 show ?case by simp
next
  case (2 plen d x xa xb p y e s')
  then have "0 < xb - length (d_buf d)" by (auto split: if_splits)
  from newlineFilteringReader_Read_cases[OF this, of "d_r d" p e s'] 2 have
    "p \<noteq> [] \<and> e = None \<or> p = [] \<and> e = Some EOF \<and> s' = []" by simp
  with 2 show ?case by (cases p) auto
qed

declare refill.simps [simp del]

definition decoder_Read :: "nat \<Rightarrow> decoder \<Rightarrow> bytes \<times> error option \<times> decoder" where
  "decoder_Read plen d =
     (if d_out d \<noteq> [] then (take plen (d_out d), None, d\<lparr>d_out := drop plen (d_out d)\<rparr>)
      else if d_err d \<noteq> None then ([], d_err d, d)
      else
        (let d1 = refill plen d in
         if length (d_buf d1) < 4 then
           (let e = (if d_readErr d1 = Some EOF \<and> d_buf d1 \<noteq> [] then Some ErrUnexpectedEOF
                     else d_readErr d1)
            in ([], e, d1\<lparr>d_err := e\<rparr>))
         else
           (let nr = length (d_buf d1) div 4 * 4;
                nw = length (d_buf d1) div 4 * 3;
                d2 = d1\<lparr>d_buf := drop nr (d_buf d1)\<rparr>
            in case Decode (take nr (d_buf d1)) of
                 Inl e \<Rightarrow> ([], Some e, d2\<lparr>d_err := Some e\<rparr>)
               | Inr decoded \<Rightarrow>
                   if nw > plen then (take plen decoded, None, d2\<lparr>d_out := drop plen decoded\<rparr>)
                   else (decoded, None, d2))))"

text \<open>
  \<^verbatim>\<open>io.ReadAll\<close> reads into the free part of a slice \<open>b\<close> of capacity 512, which
  \<^verbatim>\<open>append\<close> enlarges when it is full, until a read gives an error; \<^verbatim>\<open>io.EOF\<close> is the
  good end. The capacity \<^verbatim>\<open>append\<close> gives a full slice is the matter of the Go runtime
  and differs between its releases: it is a parameter here, a function of the capacity
  the slice had, and it makes room for one more byte at least.
\<close>

type_synonym growth = "nat \<Rightarrow> nat"

definition unread :: "decoder \<Rightarrow> nat" where
  "unread d = length (d_out d) + length (d_buf d) + length (d_r d)"

lemma refill_unread:
  "length (d_buf (refill plen d)) + length (d_r (refill plen d)) \<le> length (d_buf d) + length (d_r d) \<and>
   d_out (refill plen d) = d_out d \<and> d_err (refill plen d) = d_err d \<and>
   (4 \<le> length (d_buf (refill plen d)) \<or> d_readErr (refill plen d) \<noteq> None)"
proof (induction plen d rule: refill.induct)
  case (1 plen d)
  show ?case
  proof (cases "length (d_buf d) < 4 \<and> d_readErr d = None")
    case False
    then have "refill plen d = d" by (subst refill.simps) (simp only: if_False)
    with False show ?thesis by auto
  next
    case True
    let ?nn = "if 1024 < (if plen div 3 * 4 < 4 then 4 else plen div 3 * 4) then 1024
               else (if plen div 3 * 4 < 4 then 4 else plen div 3 * 4)"
    obtain p e s' where r: "newlineFilteringReader_Read (?nn - length (d_buf d)) (d_r d) = (p, e, s')"
      by (metis prod_cases3)
    let ?d = "d\<lparr>d_readErr := e, d_r := s', d_buf := d_buf d @ p\<rparr>"
    have pos: "0 < ?nn - length (d_buf d)" using True by auto
    have step: "refill plen d = refill plen ?d"
      by (subst refill.simps) (simp only: True if_True Let_def r prod.case simp_thms)
    note ih = "1.IH"[OF True refl refl refl r[symmetric] refl]
    from newlineFilteringReader_Read_cases[OF pos r] have "length p + length s' \<le> length (d_r d)" by simp
    with ih show ?thesis unfolding step by simp
  qed
qed

lemma Decode_length: "Decode t = Inr out \<Longrightarrow> length out \<le> length t div 4 * 3"
proof (induction t arbitrary: out rule: Decode.induct)
  case (1 a b c d rest)
  show ?case
  proof (cases "\<exists>x y z w. dec a = Some x \<and> dec b = Some y \<and> dec c = Some z \<and> dec d = Some w")
    case True
    then obtain x y z w where da: "dec a = Some x" and db: "dec b = Some y" and dc: "dec c = Some z"
      and dd: "dec d = Some w" by blast
    from "1.prems" da db dc dd obtain o' where r: "Decode rest = Inr o'"
      and out: "out = bytes3 (from_sextets x y z w) @ o'"
      by (auto split: sum.splits)
    from "1.IH"[OF refl da db dc dd r] have "length o' \<le> length rest div 4 * 3" .
    moreover have "(4 + length rest) div 4 = Suc (length rest div 4)" by simp
    ultimately show ?thesis using out by (simp add: bytes3_def)
  next
    case False
    with "1.prems" show ?thesis
      by (auto simp: after_padding_def bytes3_def split: option.splits sum.splits if_splits)
  qed
qed simp_all

lemma decoder_Read_progress:
  assumes "0 < plen" and "decoder_Read plen d = (p, None, d')"
  shows "unread d' < unread d"
proof (cases "d_out d \<noteq> []")
  case True
  with assms show ?thesis by (cases "d_out d") (auto simp: decoder_Read_def unread_def)
next
  case False
  note o = this
  show ?thesis
  proof (cases "d_err d \<noteq> None")
    case True
    with assms o show ?thesis by (simp add: decoder_Read_def)
  next
    case False
    let ?d1 = "refill plen d"
    note ru = refill_unread[of plen d]
    show ?thesis
    proof (cases "length (d_buf ?d1) < 4")
      case True
      with ru have "d_readErr ?d1 \<noteq> None" by auto
      with assms o False True show ?thesis by (auto simp: decoder_Read_def Let_def split: if_splits)
    next
      case big: False
      let ?nr = "length (d_buf ?d1) div 4 * 4"
      show ?thesis
      proof (cases "Decode (take ?nr (d_buf ?d1))")
        case (Inl e)
        with assms o False big show ?thesis by (simp add: decoder_Read_def Let_def)
      next
        case (Inr decoded)
        from Decode_length[OF Inr] have dl: "length decoded \<le> length (d_buf ?d1) div 4 * 3"
          by (simp add: min_def split: if_splits)
        have o1: "d_out ?d1 = []" using ru o by simp
        from assms o False big Inr have
          "d' = (if length (d_buf ?d1) div 4 * 3 > plen
                 then ?d1\<lparr>d_buf := drop ?nr (d_buf ?d1), d_out := drop plen decoded\<rparr>
                 else ?d1\<lparr>d_buf := drop ?nr (d_buf ?d1)\<rparr>)"
          by (auto simp: decoder_Read_def Let_def split: if_splits)
        then show ?thesis using dl big ru o o1 assms(1) by (auto simp: unread_def split: if_splits)
      qed
    qed
  qed
qed

function ReadAll_from :: "growth \<Rightarrow> bytes \<Rightarrow> nat \<Rightarrow> decoder \<Rightarrow> error + bytes" where
  "ReadAll_from grow b c d =
     (let c = (if c \<le> length b then max (Suc (length b)) (grow c) else c)
      in case decoder_Read (c - length b) d of (p, e, d') \<Rightarrow>
           (case e of
              Some err \<Rightarrow> if err = EOF then Inr (b @ p) else Inl err
            | None \<Rightarrow> ReadAll_from grow (b @ p) c d'))"
  by pat_completeness auto
termination
proof (relation "measure (\<lambda>(grow, b, c, d). unread d)", goal_cases)
  case 1 show ?case by simp
next
  case (2 grow b c d c' p y e d')
  then have "0 < c' - length b" by (auto split: if_splits)
  from decoder_Read_progress[OF this, of d p d'] 2 show ?case by simp
qed

declare ReadAll_from.simps [simp del]

definition ReadAll :: "growth \<Rightarrow> decoder \<Rightarrow> error + bytes" where
  "ReadAll grow d = ReadAll_from grow [] 512 d"





definition TrimPrefix :: "string \<Rightarrow> string \<Rightarrow> string" where
  "TrimPrefix s prefix =
     (if take (length prefix) s = prefix then drop (length prefix) s else s)"

section \<open>The protobuf wire format: decoding\<close>

text \<open>
  \<^verbatim>\<open>protowire.ConsumeVarint\<close>: at most ten bytes, of which the tenth carries one bit. A
  result is the value and the bytes after it; \<open>None\<close> is a truncated or overflowing
  varint.
\<close>

fun ConsumeVarint_from :: "nat \<Rightarrow> bytes \<Rightarrow> (64 word \<times> bytes) option" where
  "ConsumeVarint_from i [] = None"
| "ConsumeVarint_from i (y # b) =
     (if 9 \<le> i then (if y < 2 then Some (push_bit 63 (ucast y), b) else None)
      else if y < 0x80 then Some (push_bit (7 * i) (ucast y), b)
      else (case ConsumeVarint_from (Suc i) b of
              None \<Rightarrow> None
            | Some (v, rest) \<Rightarrow> Some (push_bit (7 * i) (ucast (y AND 0x7f)) + v, rest)))"

definition ConsumeVarint :: "bytes \<Rightarrow> (64 word \<times> bytes) option" where
  "ConsumeVarint b = ConsumeVarint_from 0 b"

definition ConsumeBytes :: "bytes \<Rightarrow> (bytes \<times> bytes) option" where
  "ConsumeBytes b =
     (case ConsumeVarint b of
        None \<Rightarrow> None
      | Some (m, rest) \<Rightarrow>
          if unat m > length rest then None
          else Some (take (unat m) rest, drop (unat m) rest))"

definition ConsumeFixed :: "nat \<Rightarrow> bytes \<Rightarrow> bytes option" where
  "ConsumeFixed n b = (if length b < n then None else Some (drop n b))"

text \<open>
  \<^verbatim>\<open>protowire.ConsumeTag\<close> (inside a group): the field number is between 1 and the
  largest int32.
\<close>

definition ConsumeTag :: "bytes \<Rightarrow> (64 word \<times> 64 word \<times> bytes) option" where
  "ConsumeTag b =
     (case ConsumeVarint b of
        None \<Rightarrow> None
      | Some (v, rest) \<Rightarrow>
          if drop_bit 3 v < 1 \<or> drop_bit 3 v > 0x7fffffff then None
          else Some (drop_bit 3 v, v AND 7, rest))"

text \<open>
  \<^verbatim>\<open>protowire.ConsumeFieldValue\<close>, the value of a field the message does not know: what
  follows the value, by wire type; the wire types 6 and 7 do not exist. A group runs to
  its end tag and may hold groups (their numbers are kept on a stack, the innermost
  first; the library gives up beyond its recursion limit of 10000).
\<close>

definition ConsumeScalar :: "64 word \<Rightarrow> bytes \<Rightarrow> bytes option" where
  "ConsumeScalar typ b =
     (if typ = VarintType then map_option snd (ConsumeVarint b)
      else if typ = Fixed32Type then ConsumeFixed 4 b
      else if typ = Fixed64Type then ConsumeFixed 8 b
      else if typ = BytesType then map_option snd (ConsumeBytes b)
      else None)"

lemma ConsumeVarint_from_shorter:
  "ConsumeVarint_from i b = Some (v, rest) \<Longrightarrow> length rest < length b"
proof (induction i b arbitrary: v rest rule: ConsumeVarint_from.induct)
  case (1 i)
  then show ?case by simp
next
  case (2 i y b)
  show ?case
  proof (cases "9 \<le> i \<or> y < 0x80")
    case True
    with "2.prems" show ?thesis by (auto split: if_splits)
  next
    case False
    with "2.prems" obtain v' where "ConsumeVarint_from (Suc i) b = Some (v', rest)"
      by (auto split: option.splits)
    with "2.IH" False have "length rest < length b" by auto
    then show ?thesis by simp
  qed
qed

lemma ConsumeVarint_shorter: "ConsumeVarint b = Some (v, rest) \<Longrightarrow> length rest < length b"
  unfolding ConsumeVarint_def by (rule ConsumeVarint_from_shorter)

lemma ConsumeBytes_shorter: "ConsumeBytes b = Some (v, rest) \<Longrightarrow> length rest < length b"
  by (auto simp: ConsumeBytes_def split: option.splits if_splits dest!: ConsumeVarint_shorter)

lemma ConsumeTag_shorter: "ConsumeTag b = Some (num, typ, rest) \<Longrightarrow> length rest < length b"
  by (auto simp: ConsumeTag_def split: option.splits if_splits dest!: ConsumeVarint_shorter)

lemma ConsumeScalar_shorter: "ConsumeScalar typ b = Some rest \<Longrightarrow> length rest \<le> length b"
  by (auto simp: ConsumeScalar_def ConsumeFixed_def split: if_splits
      dest!: ConsumeVarint_shorter ConsumeBytes_shorter)

function ConsumeGroup :: "64 word list \<Rightarrow> bytes \<Rightarrow> bytes option" where
  "ConsumeGroup [] b = Some b"
| "ConsumeGroup (num # outer) b =
     (case ConsumeTag b of
        None \<Rightarrow> None
      | Some (num2, typ2, rest) \<Rightarrow>
          if typ2 = EndGroupType then (if num = num2 then ConsumeGroup outer rest else None)
          else if typ2 = StartGroupType
          then (if 10000 \<le> length outer then None else ConsumeGroup (num2 # num # outer) rest)
          else (case ConsumeScalar typ2 rest of
                  None \<Rightarrow> None
                | Some rest' \<Rightarrow> ConsumeGroup (num # outer) rest'))"
  by pat_completeness auto
termination
proof (relation "measure (\<lambda>(stack, b). length b)")
  show "wf (measure (\<lambda>(stack :: 64 word list, b :: bytes). length b))" by simp
qed (auto dest!: ConsumeTag_shorter ConsumeScalar_shorter)

declare ConsumeGroup.simps [simp del]

definition ConsumeFieldValue :: "64 word \<Rightarrow> 64 word \<Rightarrow> bytes \<Rightarrow> bytes option" where
  "ConsumeFieldValue num typ b =
     (if typ = StartGroupType then ConsumeGroup [num] b else ConsumeScalar typ b)"

lemma ConsumeGroup_shorter: "ConsumeGroup stack b = Some rest \<Longrightarrow> length rest \<le> length b"
proof (induction stack b rule: ConsumeGroup.induct)
  case (1 b)
  then show ?case by (simp add: ConsumeGroup.simps)
next
  case (2 num outer b)
  from "2.prems" obtain num2 typ2 r where t: "ConsumeTag b = Some (num2, typ2, r)"
    by (auto simp: ConsumeGroup.simps split: option.splits)
  note short = ConsumeTag_shorter[OF t]
  show ?case
  proof (cases "typ2 = EndGroupType")
    case True
    with "2.prems" t have "num = num2" "ConsumeGroup outer r = Some rest"
      by (auto simp: ConsumeGroup.simps split: if_splits)
    with "2.IH"(1)[OF t refl refl True] have "length rest \<le> length r" by simp
    with short show ?thesis by simp
  next
    case notend: False
    show ?thesis
    proof (cases "typ2 = StartGroupType")
      case True
      with "2.prems" t notend have "\<not> 10000 \<le> length outer"
        "ConsumeGroup (num2 # num # outer) r = Some rest"
        by (auto simp: ConsumeGroup.simps split: if_splits)
      with "2.IH"(2)[OF t refl refl notend True] have "length rest \<le> length r" by simp
      with short show ?thesis by simp
    next
      case False
      with "2.prems" t notend obtain r' where s: "ConsumeScalar typ2 r = Some r'"
        and g: "ConsumeGroup (num # outer) r' = Some rest"
        by (auto simp: ConsumeGroup.simps split: option.splits)
      from "2.IH"(3)[OF t refl refl notend False s] g have "length rest \<le> length r'" by simp
      with ConsumeScalar_shorter[OF s] short show ?thesis by simp
    qed
  qed
qed

lemma ConsumeFieldValue_shorter:
  "ConsumeFieldValue num typ b = Some rest \<Longrightarrow> length rest \<le> length b"
  by (auto simp: ConsumeFieldValue_def split: if_splits
      dest: ConsumeGroup_shorter ConsumeScalar_shorter)

text \<open>
  One field of a message, as the unmarshalling loop of the runtime reads it: the tag
  (a field number between 1 and \<open>2\<^sup>2\<^sup>9 - 1\<close>; an end-group tag has no group to end), then
  the value. A known field with its own wire type is stored, an enum truncated to 32 bits;
  anything else is an unknown field, kept with its tag written anew.
\<close>

definition MaxValidNumber :: "64 word" where
  "MaxValidNumber = 0x1fffffff"

definition unknown_field :: "64 word \<Rightarrow> 64 word \<Rightarrow> bytes \<Rightarrow> bytes \<Rightarrow> bytes" where
  "unknown_field num wtyp b rest = AppendTag num wtyp @ take (length b - length rest) b"

definition field_Credential :: "pb_Credential \<Rightarrow> bytes \<Rightarrow> (pb_Credential \<times> bytes) option" where
  "field_Credential m b =
     (case ConsumeVarint b of
        None \<Rightarrow> None
      | Some (tag, b1) \<Rightarrow>
          (let num = drop_bit 3 tag; wtyp = tag AND 7 in
           if num < 1 \<or> num > MaxValidNumber then None
           else if wtyp = EndGroupType then None
           else if num = field_node_id \<and> wtyp = BytesType
           then map_option (\<lambda>(v, rest). (m\<lparr>NodeId := v\<rparr>, rest)) (ConsumeBytes b1)
           else if num = field_timestamp \<and> wtyp = VarintType
           then map_option (\<lambda>(v, rest). (m\<lparr>Timestamp := v\<rparr>, rest)) (ConsumeVarint b1)
           else if num = field_operator_type \<and> wtyp = VarintType
           then map_option (\<lambda>(v, rest). (m\<lparr>OperatorType := ucast v\<rparr>, rest)) (ConsumeVarint b1)
           else map_option
                  (\<lambda>rest. (m\<lparr>unknownFields := unknownFields m @ unknown_field num wtyp b1 rest\<rparr>, rest))
                  (ConsumeFieldValue num wtyp b1)))"

lemma field_Credential_shorter:
  "field_Credential m b = Some (m', rest) \<Longrightarrow> length rest < length b"
  by (auto simp: field_Credential_def Let_def split: option.splits if_splits
      dest!: ConsumeVarint_shorter ConsumeBytes_shorter ConsumeFieldValue_shorter)

function unmarshal_Credential :: "pb_Credential \<Rightarrow> bytes \<Rightarrow> pb_Credential option" where
  "unmarshal_Credential m b =
     (if b = [] then Some m
      else (case field_Credential m b of
              None \<Rightarrow> None
            | Some (m', rest) \<Rightarrow> unmarshal_Credential m' rest))"
  by pat_completeness auto
termination
proof (relation "measure (\<lambda>(m, b). length b)")
  show "wf (measure (\<lambda>(m :: pb_Credential, b :: bytes). length b))" by simp
qed (auto dest!: field_Credential_shorter)

declare unmarshal_Credential.simps [simp del]

definition field_AuthenticatedCredential ::
  "pb_Credential pb_AuthenticatedCredential \<Rightarrow> bytes
     \<Rightarrow> (pb_Credential pb_AuthenticatedCredential \<times> bytes) option" where
  "field_AuthenticatedCredential m b =
     (case ConsumeVarint b of
        None \<Rightarrow> None
      | Some (tag, b1) \<Rightarrow>
          (let num = drop_bit 3 tag; wtyp = tag AND 7 in
           if num < 1 \<or> num > MaxValidNumber then None
           else if wtyp = EndGroupType then None
           else if num = field_credential \<and> wtyp = BytesType
           then (case ConsumeBytes b1 of
                   None \<Rightarrow> None
                 | Some (v, rest) \<Rightarrow>
                     (case unmarshal_Credential
                             (case Credential m of None \<Rightarrow> empty_Credential | Some c \<Rightarrow> c) v of
                        None \<Rightarrow> None
                      | Some c' \<Rightarrow> Some (m\<lparr>Credential := Some c'\<rparr>, rest)))
           else if num = field_mac \<and> wtyp = BytesType
           then map_option (\<lambda>(v, rest). (m\<lparr>Mac := v\<rparr>, rest)) (ConsumeBytes b1)
           else map_option
                  (\<lambda>rest. (m\<lparr>unknownFieldsAC := unknownFieldsAC m @ unknown_field num wtyp b1 rest\<rparr>, rest))
                  (ConsumeFieldValue num wtyp b1)))"

lemma field_AuthenticatedCredential_shorter:
  "field_AuthenticatedCredential m b = Some (m', rest) \<Longrightarrow> length rest < length b"
  by (auto simp: field_AuthenticatedCredential_def Let_def split: option.splits if_splits
      dest!: ConsumeVarint_shorter ConsumeBytes_shorter ConsumeFieldValue_shorter)

function unmarshal_AuthenticatedCredential ::
  "pb_Credential pb_AuthenticatedCredential \<Rightarrow> bytes
     \<Rightarrow> pb_Credential pb_AuthenticatedCredential option" where
  "unmarshal_AuthenticatedCredential m b =
     (if b = [] then Some m
      else (case field_AuthenticatedCredential m b of
              None \<Rightarrow> None
            | Some (m', rest) \<Rightarrow> unmarshal_AuthenticatedCredential m' rest))"
  by pat_completeness auto
termination
proof (relation "measure (\<lambda>(m, b). length b)")
  show "wf (measure (\<lambda>(m :: pb_Credential pb_AuthenticatedCredential, b :: bytes). length b))"
    by simp
qed (auto dest!: field_AuthenticatedCredential_shorter)

declare unmarshal_AuthenticatedCredential.simps [simp del]

text \<open>
  \<^verbatim>\<open>proto.Unmarshal\<close> into an AuthenticatedCredential: the message is reset, then filled
  from the bytes; input that is not wire format is the library's decoding error.
\<close>

definition wire_Unmarshal :: "bytes \<Rightarrow> error + pb_Credential pb_AuthenticatedCredential" where
  "wire_Unmarshal b =
     (case unmarshal_AuthenticatedCredential empty_envelope b of
        None \<Rightarrow> Inl ErrDecode
      | Some m \<Rightarrow> Inr m)"

text \<open>
  \<^verbatim>\<open>Reset\<close>, \<^verbatim>\<open>proto.Unmarshal\<close> and \<^verbatim>\<open>proto.Merge\<close> on objects in memory. Unmarshal
  allocates the inner message when the bytes hold one; when it fails the message it was
  filling is left reset here (the source drops that message). Merge copies the fields of
  the source that are set: an inner message is merged into the one of the destination,
  which is allocated first when the destination has none.
\<close>

definition Reset :: "ptr \<Rightarrow> store \<Rightarrow> store" where
  "Reset p s = modify_envelope p (\<lambda>_. empty_envelope) s"

definition store_message :: "ptr \<Rightarrow> pb_Credential pb_AuthenticatedCredential \<Rightarrow> store \<Rightarrow> store" where
  "store_message p v s =
     (case Credential v of
        None \<Rightarrow>
          modify_envelope p
            (\<lambda>_. \<lparr>Credential = None, Mac = Mac v, unknownFieldsAC = unknownFieldsAC v\<rparr>) s
      | Some c \<Rightarrow>
          (case new_Credential c s of (q, s') \<Rightarrow>
             modify_envelope p
               (\<lambda>_. \<lparr>Credential = Some q, Mac = Mac v, unknownFieldsAC = unknownFieldsAC v\<rparr>) s'))"

definition proto_Unmarshal :: "bytes \<Rightarrow> ptr \<Rightarrow> store \<Rightarrow> error option \<times> store" where
  "proto_Unmarshal b m s =
     (case wire_Unmarshal b of
        Inl err \<Rightarrow> (Some err, Reset m s)
      | Inr v \<Rightarrow> (None, store_message m v s))"

definition merge_Credential :: "pb_Credential \<Rightarrow> pb_Credential \<Rightarrow> pb_Credential" where
  "merge_Credential dst src =
     \<lparr>NodeId = (if NodeId src = [] then NodeId dst else NodeId src),
      Timestamp = (if Timestamp src = 0 then Timestamp dst else Timestamp src),
      OperatorType = (if OperatorType src = 0 then OperatorType dst else OperatorType src),
      unknownFields = unknownFields dst @ unknownFields src\<rparr>"

definition proto_Merge :: "ptr \<Rightarrow> ptr \<Rightarrow> store \<Rightarrow> store" where
  "proto_Merge dst src s =
     (case (envelope_at s dst, envelope_at s src) of
        (Some d, Some m) \<Rightarrow>
          (let s1 =
             (case inner s m of
                None \<Rightarrow> s
              | Some c \<Rightarrow>
                  (case Credential d of
                     Some q \<Rightarrow> modify_credential q (\<lambda>x. merge_Credential x c) s
                   | None \<Rightarrow>
                       (case new_Credential (merge_Credential empty_Credential c) s of (q, s') \<Rightarrow>
                          modify_envelope dst (\<lambda>a. a\<lparr>Credential := Some q\<rparr>) s')))
           in modify_envelope dst
                (\<lambda>a. a\<lparr>Mac := (if Mac m = [] then Mac a else Mac m),
                        unknownFieldsAC := unknownFieldsAC a @ unknownFieldsAC m\<rparr>) s1)
      | _ \<Rightarrow> s)"

section \<open>encoding/json\<close>

text \<open>
  A JSON document is taken as the value it denotes, not as its text: what
  \<^verbatim>\<open>json.Marshal\<close> writes and \<^verbatim>\<open>json.Unmarshal\<close> reads is a \<open>json\<close>. A number is the
  integer its literal writes, or \<open>JReal\<close> when the literal has a fraction or an exponent
  (which no integer field accepts).
\<close>

datatype json =
    JNull
  | JBool bool
  | JNumber int
  | JReal
  | JString string
  | JArray "json list"
  | JObject "(string \<times> json) list"

record jsonAuthenticatedCredential =
  j_NodeID :: string
  j_Timestamp :: "64 word"
  j_OperatorType :: OperatorType
  j_Mac :: string

definition json_Marshal :: "jsonAuthenticatedCredential \<Rightarrow> json" where
  "json_Marshal j =
     JObject [(''node_id'', JString (j_NodeID j)),
              (''timestamp'', JNumber (sint (j_Timestamp j))),
              (''operator_type'', JNumber (sint (j_OperatorType j))),
              (''mac'', JString (j_Mac j))]"

text \<open>
  \<^verbatim>\<open>json.Unmarshal\<close> into the struct: \<open>null\<close> changes nothing; an object sets the fields
  its keys name (a key names the field whose name is the same after \<^verbatim>\<open>foldName\<close>, a
  later key overrides an earlier one, other keys are skipped); a \<open>null\<close> member is
  skipped; a member of the wrong type, or an integer out of the range of the field, is
  an \<^verbatim>\<open>UnmarshalTypeError\<close>, and so is a document that is neither \<open>null\<close> nor an object.

  \<^verbatim>\<open>foldName\<close> makes capitals of the letters a to z, and of a rune outside ASCII the
  smallest rune that differs from it in case only. That is an ASCII letter for two
  runes: the long s (U+017F, in UTF-8 the bytes C5 BF) becomes S, and the Kelvin sign
  (U+212A, the bytes E2 84 AA) becomes K. The other runes are left as they are, which
  changes no comparison with a field name: the field names are ASCII.
\<close>

definition upper :: "char \<Rightarrow> char" where
  "upper ch =
     (if (97::nat) \<le> of_char ch \<and> of_char ch \<le> (122::nat) then char_of (of_char ch - (32::nat)) else ch)"

fun foldName :: "string \<Rightarrow> string" where
  "foldName [] = []"
| "foldName (ch # s) =
     (if ch = CHR 0xC5 \<and> take 1 s = [CHR 0xBF] then CHR ''S'' # foldName (drop 1 s)
      else if ch = CHR 0xE2 \<and> take 2 s = [CHR 0x84, CHR 0xAA] then CHR ''K'' # foldName (drop 2 s)
      else upper ch # foldName s)"

definition json_string :: "json \<Rightarrow> string \<Rightarrow> string \<Rightarrow> error + string" where
  "json_string v field old =
     (case v of JString s \<Rightarrow> Inr s | JNull \<Rightarrow> Inr old | _ \<Rightarrow> Inl (UnmarshalTypeError field))"

definition json_int :: "nat \<Rightarrow> json \<Rightarrow> string \<Rightarrow> 'a::len word \<Rightarrow> error + 'a word" where
  "json_int bits v field old =
     (case v of
        JNumber n \<Rightarrow>
          if - (2 ^ (bits - 1)) \<le> n \<and> n < 2 ^ (bits - 1) then Inr (of_int n)
          else Inl (UnmarshalTypeError field)
      | JNull \<Rightarrow> Inr old
      | _ \<Rightarrow> Inl (UnmarshalTypeError field))"

fun json_members ::
  "(string \<times> json) list \<Rightarrow> jsonAuthenticatedCredential \<Rightarrow> error + jsonAuthenticatedCredential" where
  "json_members [] j = Inr j"
| "json_members ((k, v) # kvs) j =
     (let key = foldName k in
      if key = foldName ''node_id'' then
        (case json_string v ''node_id'' (j_NodeID j) of
           Inl err \<Rightarrow> Inl err | Inr s \<Rightarrow> json_members kvs (j\<lparr>j_NodeID := s\<rparr>))
      else if key = foldName ''timestamp'' then
        (case json_int 64 v ''timestamp'' (j_Timestamp j) of
           Inl err \<Rightarrow> Inl err | Inr n \<Rightarrow> json_members kvs (j\<lparr>j_Timestamp := n\<rparr>))
      else if key = foldName ''operator_type'' then
        (case json_int 32 v ''operator_type'' (j_OperatorType j) of
           Inl err \<Rightarrow> Inl err | Inr n \<Rightarrow> json_members kvs (j\<lparr>j_OperatorType := n\<rparr>))
      else if key = foldName ''mac'' then
        (case json_string v ''mac'' (j_Mac j) of
           Inl err \<Rightarrow> Inl err | Inr s \<Rightarrow> json_members kvs (j\<lparr>j_Mac := s\<rparr>))
      else json_members kvs j)"

definition json_Unmarshal :: "json \<Rightarrow> error + jsonAuthenticatedCredential" where
  "json_Unmarshal data =
     (let zero = \<lparr>j_NodeID = [], j_Timestamp = 0, j_OperatorType = 0, j_Mac = []\<rparr> in
      case data of
        JNull \<Rightarrow> Inr zero
      | JObject kvs \<Rightarrow> json_members kvs zero
      | _ \<Rightarrow> Inl (UnmarshalTypeError ''jsonAuthenticatedCredential''))"

section \<open>The encodings of an AuthenticatedCredential\<close>



definition Base64URLEncodeUsername :: "ptr \<Rightarrow> store \<Rightarrow> string outcome" where
  "Base64URLEncodeUsername ac s =
     (case envelope_at s ac of
        None \<Rightarrow> Panic
      | Some a \<Rightarrow>
          (case inner s a of
             None \<Rightarrow> Panic
           | Some c \<Rightarrow> Ok (base64_Encode (NodeId c))))"

definition Base64URLEncodePassword :: "marshaller \<Rightarrow> ptr \<Rightarrow> store \<Rightarrow> string outcome \<times> store" where
  "Base64URLEncodePassword pm ac s =
     (case envelope_at s ac of
        None \<Rightarrow> (Panic, s)
      | Some a \<Rightarrow>
          (case (Credential a, inner s a) of
             (Some q, Some c) \<Rightarrow>
               (let nodeID = NodeId c;
                    s1 = modify_credential q (\<lambda>x. x\<lparr>NodeId := []\<rparr>) s
                in case pm (AuthenticatedCredentialMessage (load s1 ac)) of
                     Inl err \<Rightarrow> (Err err, s1)
                   | Inr marshaled \<Rightarrow>
                       (let s2 = modify_credential q (\<lambda>x. x\<lparr>NodeId := nodeID\<rparr>) s1
                        in (Ok (base64_Encode marshaled), s2)))
           | _ \<Rightarrow> (Panic, s)))"

definition Base64URLDecode ::
  "growth \<Rightarrow> ptr \<Rightarrow> string \<Rightarrow> string \<Rightarrow> store \<Rightarrow> unit outcome \<times> store" where
  "Base64URLDecode grow ac username password s =
     (case ReadAll grow (NewDecoder username) of
        Inl err \<Rightarrow> (Err err, s)
      | Inr nodeID \<Rightarrow>
          (case ReadAll grow (NewDecoder password) of
             Inl err \<Rightarrow> (Err err, s)
           | Inr decoded \<Rightarrow>
               (case new_envelope empty_envelope s of (newCred, s1) \<Rightarrow>
                 (case proto_Unmarshal decoded newCred s1 of
                    (Some err, s2) \<Rightarrow> (Err err, s2)
                  | (None, s2) \<Rightarrow>
                      (case envelope_at s2 ac of
                         None \<Rightarrow> (Panic, s2)
                       | Some _ \<Rightarrow>
                           (let s3 = Reset ac s2;
                                s4 = proto_Merge ac newCred s3
                            in case envelope_at s4 ac of
                                 None \<Rightarrow> (Panic, s4)
                               | Some a \<Rightarrow>
                                   (case Credential a of
                                      None \<Rightarrow> (Panic, s4)
                                    | Some q \<Rightarrow>
                                        (Ok (), modify_credential q (\<lambda>x. x\<lparr>NodeId := nodeID\<rparr>) s4))))))))"

text \<open>
  A message with no unknown fields, in itself or in its inner message, and with byte
  fields of a length a Go slice can have: what \<^verbatim>\<open>Create\<close> and \<^verbatim>\<open>UnmarshalJSON\<close>
  build.
\<close>

definition plain :: "pb_Credential pb_AuthenticatedCredential \<Rightarrow> bool" where
  "plain a \<longleftrightarrow>
     unknownFieldsAC a = [] \<and> length (Mac a) < 2 ^ 63 \<and>
     (case Credential a of
        None \<Rightarrow> True
      | Some c \<Rightarrow> unknownFields c = [] \<and> length (NodeId c) < 2 ^ 63)"

text \<open>A credential in memory, and a second envelope to decode into.\<close>

definition sample_credential :: pb_Credential where
  "sample_credential = \<lparr>NodeId = [1, 2, 3], Timestamp = 1700000000, OperatorType = 1, unknownFields = []\<rparr>"

definition sample_store :: store where
  "sample_store =
     \<lparr>credentials = [sample_credential],
      envelopes = [\<lparr>Credential = Some 0, Mac = [9, 8, 7, 6], unknownFieldsAC = []\<rparr>, empty_envelope]\<rparr>"



text \<open>
  Of a decoder: the characters it has still to decode, line breaks apart, and the state
  \<^verbatim>\<open>io.ReadAll\<close> finds it in before each read (no error yet; a reader that has
  reported the end has nothing left).
\<close>

definition pending :: "decoder \<Rightarrow> string" where
  "pending d = d_buf d @ filter (\<lambda>b. \<not> line_break b) (d_r d)"

definition reading :: "decoder \<Rightarrow> bool" where
  "reading d \<longleftrightarrow> d_err d = None \<and> (d_readErr d = None \<or> d_readErr d = Some EOF \<and> d_r d = [])"

section \<open>Properties of the CredentialManager\<close>

lemma xor_eq_0_iff_byte: "(a::byte) XOR b = 0 \<longleftrightarrow> a = b"
  by (metis bit.xor_left_self xor.right_neutral)

lemma ConstantTimeByteEq_iff: "ConstantTimeByteEq x y = (if x = y then 1 else 0)"
proof (cases "x = y")
  case True
  then show ?thesis by (simp add: ConstantTimeByteEq_def drop_bit_eq_div unat_div)
next
  case False
  define z where "z = x XOR y"
  have nz: "z \<noteq> 0" using False by (simp add: z_def xor_eq_0_iff_byte)
  have lt: "unat z < 256" using unsigned_less[of z, where ?'a = nat] by simp
  then have "unat (ucast z :: 32 word) = unat z"
    by (simp add: unsigned_ucast_eq take_bit_nat_eq_self)
  moreover have "0 < unat z" using nz by (simp add: unat_gt_0)
  moreover note lt
  ultimately have "unat ((ucast z :: 32 word) - 1) < 256"
    by (simp add: unat_sub word_le_nat_alt)
  then have "unat (drop_bit 31 ((ucast z :: 32 word) - 1)) = 0"
    by (simp add: drop_bit_eq_div unat_div)
  then show ?thesis using False by (simp add: ConstantTimeByteEq_def z_def)
qed

lemma fold_or_xor_zero:
  "length x = length y \<Longrightarrow>
   foldl (\<lambda>v ab. v OR (fst ab XOR snd ab)) (v0::byte) (zip x y) = 0 \<longleftrightarrow> v0 = 0 \<and> x = y"
proof (induction x arbitrary: y v0)
  case Nil then show ?case by simp
next
  case (Cons a x)
  then obtain b y' where y: "y = b # y'" by (cases y) auto
  have "(v0 OR (a XOR b) = 0) = (v0 = 0 \<and> a = b)"
    by (auto simp: or_eq_0_iff xor_eq_0_iff_byte)
  with Cons y show ?case by auto
qed

lemma hmac_Equal_iff: "hmac_Equal x y \<longleftrightarrow> x = y"
  by (auto simp: hmac_Equal_def ConstantTimeCompare_def ConstantTimeByteEq_iff fold_or_xor_zero)

lemma holds_key_New: "holds_key key (NewCredentialManager key)"
  by (simp add: holds_key_def NewCredentialManager_def)

lemma holds_key_Get:
  assumes "holds_key key c"
  shows "fst (Get c) = Some (Hash (hmac_New key))" and "holds_key key (snd (Get c))"
proof -
  show "fst (Get c) = Some (Hash (hmac_New key))"
  proof (cases "pooled c")
    case Nil
    with assms show ?thesis by (simp add: Get_def holds_key_def)
  next
    case (Cons x xs)
    with assms have "x # xs = replicate (Suc (length xs)) (Hash (hmac_New key))"
      by (simp add: holds_key_def)
    then have "x = Hash (hmac_New key)" by simp
    with Cons show ?thesis by (simp add: Get_def)
  qed
  show "holds_key key (snd (Get c))"
  proof (cases "pooled c")
    case Nil
    with assms show ?thesis by (simp add: Get_def holds_key_def)
  next
    case (Cons x xs)
    with assms have "x # xs = replicate (Suc (length xs)) (Hash (hmac_New key))"
      by (simp add: holds_key_def)
    then have "xs = replicate (length xs) (Hash (hmac_New key))" by simp
    with Cons assms show ?thesis by (simp add: Get_def holds_key_def)
  qed
qed

lemma holds_key_Put: "holds_key key c \<Longrightarrow> holds_key key (Put (Hash (hmac_New key)) c)"
  by (simp add: holds_key_def Put_def)

lemma authenticateCredential_holds_key:
  assumes "holds_key key c" and "envelope_at s p = Some a"
    and "pm (CredentialMessage (inner s a)) = Inr bs"
  shows "authenticateCredential pm c p s =
           (Ok (), Put (Hash (hmac_New key)) (snd (Get c)),
            modify_envelope p (\<lambda>a. a\<lparr>Mac := hmac_sha256 key bs\<rparr>) s)"
proof -
  obtain x c1 where g: "Get c = (x, c1)" by (cases "Get c")
  with holds_key_Get(1)[OF assms(1)] have x: "x = Some (Hash (hmac_New key))" by simp
  show ?thesis
    using assms(2,3) g x
    by (simp add: authenticateCredential_def hash_Write_def hash_Sum_def hash_Reset_def hmac_New_def)
qed


lemma Create_result:
  assumes hk: "holds_key key c" and len: "length nodeID = 20"
    and pm: "pm (CredentialMessage (Some (created nodeID t ot))) = Inr bs"
  shows "Create pm c t nodeID ot s =
           (Ok (length (envelopes s)), Put (Hash (hmac_New key)) (snd (Get c)),
            s\<lparr>credentials := credentials s @ [created nodeID t ot],
              envelopes := envelopes s @
                [\<lparr>Credential = Some (length (credentials s)), Mac = hmac_sha256 key bs,
                  unknownFieldsAC = []\<rparr>]\<rparr>)"
proof -
  define s6 where "s6 = s\<lparr>credentials := credentials s @ [created nodeID t ot],
      envelopes := envelopes s @ [\<lparr>Credential = Some (length (credentials s)), Mac = [], unknownFieldsAC = []\<rparr>]\<rparr>"
  define a where "a = \<lparr>Credential = Some (length (credentials s)), Mac = ([]::bytes), unknownFieldsAC = []\<rparr>"
  have env: "envelope_at s6 (length (envelopes s)) = Some a"
    by (simp add: envelope_at_def s6_def a_def)
  have inn: "inner s6 a = Some (created nodeID t ot)"
    by (simp add: inner_def credential_at_def s6_def a_def)
  have auth: "authenticateCredential pm c (length (envelopes s)) s6 =
      (Ok (), Put (Hash (hmac_New key)) (snd (Get c)),
       modify_envelope (length (envelopes s)) (\<lambda>a. a\<lparr>Mac := hmac_sha256 key bs\<rparr>) s6)"
    using authenticateCredential_holds_key[OF hk env] pm inn by simp
  have steps: "modify_credential (length (credentials s)) (\<lambda>x. x\<lparr>Timestamp := Unix t\<rparr>)
      (modify_credential (length (credentials s)) (\<lambda>x. x\<lparr>OperatorType := ot\<rparr>)
        (modify_credential (length (credentials s)) (\<lambda>x. x\<lparr>NodeId := nodeID\<rparr>)
          (modify_envelope (length (envelopes s)) (\<lambda>a. a\<lparr>Credential := Some (length (credentials s))\<rparr>)
            (s\<lparr>envelopes := envelopes s @ [empty_envelope], credentials := credentials s @ [empty_Credential]\<rparr>)))) = s6"
    by (simp add: modify_credential_def modify_envelope_def s6_def empty_envelope_def
        empty_Credential_def created_def)
  show ?thesis
    using len
    by (simp add: Create_def new_envelope_def new_Credential_def Let_def steps auth)
      (simp add: s6_def modify_envelope_def)
qed


lemma Verify_eq:
  assumes env: "envelope_at s p = Some a"
  shows "Verify pm c p s =
    (case pm (CredentialMessage (inner s a)) of
       Inl e \<Rightarrow> (Err (ErrorRecreatingMAC (ErrorSerializingHMACBody e)), c,
                 s\<lparr>envelopes := envelopes s @ [lent a []]\<rparr>)
     | Inr bs \<Rightarrow>
        (case Get c of
           (Some (Hash h), c1) \<Rightarrow>
             (if Mac a = hmac_sha256 (hkey h) (written h @ bs) then Ok () else Err CredentialMACMismatch,
              Put (Hash (h\<lparr>written := []\<rparr>)) c1,
              s\<lparr>envelopes := envelopes s @ [lent a (hmac_sha256 (hkey h) (written h @ bs))]\<rparr>)
         | (_, c1) \<Rightarrow> (Err (ErrorRecreatingMAC CouldntRetrieveHash), c1,
                       s\<lparr>envelopes := envelopes s @ [lent a []]\<rparr>)))"
proof -
  define n where "n = length (envelopes s)"
  define s2 where "s2 = s\<lparr>envelopes := envelopes s @ [lent a []]\<rparr>"
  have p: "p < n" using env by (simp add: envelope_at_def n_def split: if_splits)
  have a: "envelopes s ! p = a" using env by (simp add: envelope_at_def split: if_splits)
  have s2: "modify_envelope n (\<lambda>x. x\<lparr>Credential := Credential a\<rparr>)
              (s\<lparr>envelopes := envelopes s @ [empty_envelope]\<rparr>) = s2"
    by (simp add: modify_envelope_def s2_def n_def empty_envelope_def lent_def)
  have tmp: "envelope_at s2 n = Some (lent a [])"
    by (simp add: envelope_at_def s2_def n_def)
  have inn: "inner s2 (lent a []) = inner s a"
    by (simp add: inner_def credential_at_def s2_def lent_def split: option.splits)
  show ?thesis
  proof (cases "pm (CredentialMessage (inner s a))")
    case (Inl e)
    then have "authenticateCredential pm c n s2 = (Err (ErrorSerializingHMACBody e), c, s2)"
      by (simp add: authenticateCredential_def tmp inn)
    then show ?thesis
      using env Inl by (simp add: Verify_def new_envelope_def s2 n_def[symmetric]) (simp add: s2_def)
  next
    case (Inr bs)
    obtain x c1 where g: "Get c = (x, c1)" by (cases "Get c")
    show ?thesis
    proof (cases "\<exists>h. x = Some (Hash h)")
      case True
      then obtain h where x: "x = Some (Hash h)" by blast
      define mac where "mac = hmac_sha256 (hkey h) (written h @ bs)"
      define s3 where "s3 = s\<lparr>envelopes := envelopes s @ [lent a mac]\<rparr>"
      have auth: "authenticateCredential pm c n s2 = (Ok (), Put (Hash (h\<lparr>written := []\<rparr>)) c1, s3)"
        using Inr g x
        by (simp add: authenticateCredential_def tmp inn hash_Write_def hash_Sum_def hash_Reset_def
            mac_def s3_def)
          (simp add: modify_envelope_def s2_def n_def lent_def)
      have e1: "envelope_at s3 n = Some (lent a mac)"
        by (simp add: envelope_at_def s3_def n_def)
      have e2: "envelope_at s3 p = Some a"
        using p a by (simp add: envelope_at_def s3_def n_def nth_append)
      show ?thesis
        using env Inr g x
        by (simp add: Verify_def new_envelope_def s2 n_def[symmetric] auth e1 e2 hmac_Equal_iff)
          (auto simp: lent_def mac_def s3_def)
    next
      case False
      then have "authenticateCredential pm c n s2 = (Err CouldntRetrieveHash, c1, s2)"
        using Inr g
        by (auto simp: authenticateCredential_def tmp inn split: option.splits any.splits)
      then show ?thesis
        using env Inr g False
        by (simp add: Verify_def new_envelope_def s2 n_def[symmetric])
          (auto simp: s2_def split: option.splits any.splits)
    qed
  qed
qed


lemma wire_Marshal_Credential [simp]:
  "wire_Marshal (CredentialMessage (Some cr)) = Inr (encode_Credential cr)"
  by (simp add: wire_Marshal_def)

lemma Verify_created:
  assumes hk: "holds_key key c" and len: "length nodeID = 20"
    and pm: "pm (CredentialMessage (Some (created nodeID t ot))) = Inr bs"
    and cr: "Create pm c t nodeID ot s = (r, c', s')"
  shows "holds_key key c'" and "\<exists>p. r = Ok p \<and> fst (Verify pm c' p s') = Ok ()"
proof -
  note res = Create_result[where pm = pm and s = s and t = t and ot = ot, OF hk len pm]
  from res cr have c': "c' = Put (Hash (hmac_New key)) (snd (Get c))" by simp
  show hk': "holds_key key c'"
    unfolding c' by (intro holds_key_Put holds_key_Get(2) hk)
  define a where "a = \<lparr>Credential = Some (length (credentials s)), Mac = hmac_sha256 key bs,
                  unknownFieldsAC = []\<rparr>"
  from res cr have r: "r = Ok (length (envelopes s))"
    and s': "s' = s\<lparr>credentials := credentials s @ [created nodeID t ot], envelopes := envelopes s @ [a]\<rparr>"
    by (simp_all add: a_def)
  have env: "envelope_at s' (length (envelopes s)) = Some a"
    by (simp add: s' envelope_at_def)
  have inn: "inner s' a = Some (created nodeID t ot)"
    by (simp add: s' inner_def a_def credential_at_def)
  obtain x c1 where g: "Get c' = (x, c1)" by (cases "Get c'")
  with holds_key_Get(1)[OF hk'] have x: "x = Some (Hash (hmac_New key))" by simp
  have "fst (Verify pm c' (length (envelopes s)) s') = Ok ()"
    by (simp add: Verify_eq[OF env] inn pm g x hmac_New_def) (simp add: a_def)
  with r show "\<exists>p. r = Ok p \<and> fst (Verify pm c' p s') = Ok ()" by simp
qed

text \<open>
  C1. For every key and every nodeID of exactly 20 bytes, \<^verbatim>\<open>Create\<close> returns an
  AuthenticatedCredential whose inner Credential holds the node id, the operator type and
  the Unix seconds of the timestamp it was given, and whose mac is the HMAC-SHA256, under
  the key, of the wire encoding of that inner Credential alone: the encoded bytes are a
  function of the inner message, not of the envelope or its mac field.
\<close>
theorem Create_authenticates_inner_alone:
  assumes "holds_key key c" and "length nodeID = 20"
  shows "\<exists>p c' s'.
           Create wire_Marshal c timestamp nodeID operatorType s = (Ok p, c', s') \<and>
           load s' p =
             Some \<lparr>Credential =
                     Some \<lparr>NodeId = nodeID, Timestamp = Unix timestamp,
                           OperatorType = operatorType, unknownFields = []\<rparr>,
                   Mac = hmac_sha256 key
                           (encode_Credential
                              \<lparr>NodeId = nodeID, Timestamp = Unix timestamp,
                                OperatorType = operatorType, unknownFields = []\<rparr>),
                   unknownFieldsAC = []\<rparr>"
proof -
  have "wire_Marshal (CredentialMessage (Some (created nodeID timestamp operatorType)))
          = Inr (encode_Credential (created nodeID timestamp operatorType))"
    by simp
  note res = Create_result[where pm = wire_Marshal and s = s and t = timestamp and ot = operatorType,
      OF assms this]
  show ?thesis
    unfolding res
    by (simp add: load_def envelope_at_def deref_def inner_def credential_at_def created_def)
qed

theorem Create_authenticates_inner_alone_witness:
  "holds_key [1, 2, 3] (NewCredentialManager [1, 2, 3]) \<and> length (replicate 20 (7::byte)) = 20 \<and>
   (\<exists>p c' s'.
      Create wire_Marshal (NewCredentialManager [1, 2, 3]) \<lparr>seconds = 1700000000, nanoseconds = 0\<rparr>
        (replicate 20 7) 1 \<lparr>credentials = [], envelopes = []\<rparr> = (Ok p, c', s') \<and>
      load s' p =
        Some \<lparr>Credential =
                Some \<lparr>NodeId = replicate 20 7, Timestamp = 1700000000,
                      OperatorType = 1, unknownFields = []\<rparr>,
              Mac = hmac_sha256 [1, 2, 3]
                      (encode_Credential
                         \<lparr>NodeId = replicate 20 7, Timestamp = 1700000000,
                           OperatorType = 1, unknownFields = []\<rparr>),
              unknownFieldsAC = []\<rparr>)"
proof -
  have k: "holds_key [1, 2, 3] (NewCredentialManager [1, 2, 3])" by (rule holds_key_New)
  have l: "length (replicate 20 (7::byte)) = 20" by simp
  from Create_authenticates_inner_alone[OF k l, of "\<lparr>seconds = 1700000000, nanoseconds = 0\<rparr>" 1
      "\<lparr>credentials = [], envelopes = []\<rparr>"] k l
  show ?thesis by (simp add: Unix_def)
qed

lemma Create_rejects_length:
  "length nodeID \<noteq> 20 \<Longrightarrow> Create pm c t nodeID ot s = (Err (InvalidNodeIDLength (length nodeID)), c, s)"
  by (simp add: Create_def)

text \<open>
  C2. \<^verbatim>\<open>Create\<close> with a node id whose length is not 20 fails with the invalid-length
  error and leaves the manager (its pool) and the memory as they were: no MAC work has
  occurred. With a node id of exactly 20 bytes, on a manager holding a key, it succeeds,
  and \<^verbatim>\<open>Verify\<close> by the same manager on the credential returned is ok.
\<close>
theorem Create_length_check_then_verifies:
  assumes "holds_key key c"
  shows "(length nodeID \<noteq> 20 \<longrightarrow>
            Create pm c timestamp nodeID operatorType s
              = (Err (InvalidNodeIDLength (length nodeID)), c, s)) \<and>
         (length nodeID = 20 \<longrightarrow>
            (\<exists>p c' s'. Create wire_Marshal c timestamp nodeID operatorType s = (Ok p, c', s') \<and>
                       holds_key key c' \<and> fst (Verify wire_Marshal c' p s') = Ok ()))"
proof (intro conjI impI)
  assume "length nodeID \<noteq> 20"
  then show "Create pm c timestamp nodeID operatorType s
              = (Err (InvalidNodeIDLength (length nodeID)), c, s)"
    by (rule Create_rejects_length)
next
  assume len: "length nodeID = 20"
  obtain r c' s' where cr: "Create wire_Marshal c timestamp nodeID operatorType s = (r, c', s')"
    by (cases "Create wire_Marshal c timestamp nodeID operatorType s") auto
  have pm: "wire_Marshal (CredentialMessage (Some (created nodeID timestamp operatorType)))
          = Inr (encode_Credential (created nodeID timestamp operatorType))"
    by simp
  from Verify_created[where pm = wire_Marshal, OF assms len pm cr]
  obtain p where "holds_key key c'" "r = Ok p" "fst (Verify wire_Marshal c' p s') = Ok ()"
    by blast
  with cr show "\<exists>p c' s'. Create wire_Marshal c timestamp nodeID operatorType s = (Ok p, c', s') \<and>
                       holds_key key c' \<and> fst (Verify wire_Marshal c' p s') = Ok ()"
    by blast
qed

theorem Create_length_check_then_verifies_witness:
  "holds_key [9] (NewCredentialManager [9]) \<and>
   length (replicate 19 (0::byte)) \<noteq> 20 \<and>
   Create wire_Marshal (NewCredentialManager [9]) \<lparr>seconds = 5, nanoseconds = 0\<rparr> (replicate 19 0) 0
       \<lparr>credentials = [], envelopes = []\<rparr>
     = (Err (InvalidNodeIDLength 19), NewCredentialManager [9], \<lparr>credentials = [], envelopes = []\<rparr>) \<and>
   length (replicate 20 (0::byte)) = 20 \<and>
   (\<exists>p c' s'. Create wire_Marshal (NewCredentialManager [9]) \<lparr>seconds = 5, nanoseconds = 0\<rparr>
                 (replicate 20 0) 0 \<lparr>credentials = [], envelopes = []\<rparr> = (Ok p, c', s') \<and>
              holds_key [9] c' \<and> fst (Verify wire_Marshal c' p s') = Ok ())"
proof -
  have k: "holds_key [9] (NewCredentialManager [9])" by (rule holds_key_New)
  note t = Create_length_check_then_verifies[OF k, where pm = wire_Marshal
      and timestamp = "\<lparr>seconds = 5, nanoseconds = 0\<rparr>" and operatorType = 0
      and s = "\<lparr>credentials = [], envelopes = []\<rparr>"]
  from t[of "replicate 19 0"] t[of "replicate 20 0"] k show ?thesis by simp
qed


lemma credential_at_envelopes [simp]: "credential_at (s\<lparr>envelopes := e\<rparr>) q = credential_at s q"
  by (simp add: credential_at_def)

lemma inner_envelopes [simp]: "inner (s\<lparr>envelopes := e\<rparr>) a = inner s a"
  by (simp add: inner_def split: option.splits)

lemma load_Some:
  "load s p = Some v \<Longrightarrow> \<exists>a. envelope_at s p = Some a \<and> inner s a = Credential v \<and> Mac a = Mac v"
  by (auto simp: load_def deref_def)

text \<open>
  C3. On a manager holding \<open>key\<close>, \<^verbatim>\<open>Verify\<close> is ok exactly when the supplied mac is
  the MAC recomputed under \<open>key\<close> over the serialization of the inner credential, and
  fails with the MAC-mismatch error when the two differ. A failure of the recomputation
  is another error value: a serialization error comes back wrapped as an error while
  re-creating the MAC, and so does the failure to retrieve a hash from the pool.
\<close>
theorem Verify_outcome:
  assumes "load s p = Some v"
  shows "(holds_key key c \<longrightarrow>
            fst (Verify pm c p s) =
              (case pm (CredentialMessage (Credential v)) of
                 Inl e \<Rightarrow> Err (ErrorRecreatingMAC (ErrorSerializingHMACBody e))
               | Inr bs \<Rightarrow> if Mac v = hmac_sha256 key bs then Ok () else Err CredentialMACMismatch)) \<and>
         (pm (CredentialMessage (Credential v)) = Inr bs \<and> (\<forall>h. fst (Get c) \<noteq> Some (Hash h)) \<longrightarrow>
            fst (Verify pm c p s) = Err (ErrorRecreatingMAC CouldntRetrieveHash))"
proof -
  from load_Some[OF assms] obtain a where env: "envelope_at s p = Some a"
    and inn: "inner s a = Credential v" and mac: "Mac a = Mac v"
    by blast
  obtain x c1 where g: "Get c = (x, c1)" by (cases "Get c")
  have one: "fst (Verify pm c p s) =
              (case pm (CredentialMessage (Credential v)) of
                 Inl e \<Rightarrow> Err (ErrorRecreatingMAC (ErrorSerializingHMACBody e))
               | Inr bs \<Rightarrow> if Mac v = hmac_sha256 key bs then Ok () else Err CredentialMACMismatch)"
    if hk: "holds_key key c"
  proof -
    from holds_key_Get(1)[OF hk] g have "x = Some (Hash (hmac_New key))" by simp
    then show ?thesis
      by (simp add: Verify_eq[OF env] inn mac g hmac_New_def split: sum.splits)
  qed
  have two: "fst (Verify pm c p s) = Err (ErrorRecreatingMAC CouldntRetrieveHash)"
    if "pm (CredentialMessage (Credential v)) = Inr bs" and "\<forall>h. fst (Get c) \<noteq> Some (Hash h)"
    using that g
    by (auto simp: Verify_eq[OF env] inn split: option.splits any.splits)
  from one two show ?thesis by blast
qed

theorem Verify_outcome_witness:
  "load \<lparr>credentials = [], envelopes = [\<lparr>Credential = None, Mac = [5], unknownFieldsAC = []\<rparr>]\<rparr> 0
     = Some \<lparr>Credential = None, Mac = [5], unknownFieldsAC = []\<rparr> \<and>
   holds_key [9] (NewCredentialManager [9]) \<and>
   fst (Verify wire_Marshal (NewCredentialManager [9]) 0
          \<lparr>credentials = [], envelopes = [\<lparr>Credential = None, Mac = [5], unknownFieldsAC = []\<rparr>]\<rparr>)
     = (if [5] = hmac_sha256 [9] [] then Ok () else Err CredentialMACMismatch) \<and>
   wire_Marshal (CredentialMessage None) = Inr [] \<and>
   (\<forall>h. fst (Get zero_manager) \<noteq> Some (Hash h)) \<and>
   fst (Verify wire_Marshal zero_manager 0
          \<lparr>credentials = [], envelopes = [\<lparr>Credential = None, Mac = [5], unknownFieldsAC = []\<rparr>]\<rparr>)
     = Err (ErrorRecreatingMAC CouldntRetrieveHash)"
proof -
  let ?s = "\<lparr>credentials = [], envelopes = [\<lparr>Credential = None, Mac = [5], unknownFieldsAC = []\<rparr>]\<rparr>"
  have l: "load ?s 0 = Some \<lparr>Credential = None, Mac = [5], unknownFieldsAC = []\<rparr>"
    by (simp add: load_def envelope_at_def deref_def inner_def)
  have k: "holds_key [9] (NewCredentialManager [9])" by (rule holds_key_New)
  have w: "wire_Marshal (CredentialMessage None) = Inr []" by (simp add: wire_Marshal_def)
  have z: "\<forall>h. fst (Get zero_manager) \<noteq> Some (Hash h)" by (simp add: Get_def zero_manager_def)
  from Verify_outcome[OF l, where pm = wire_Marshal and key = "[9]" and c = "NewCredentialManager [9]"]
    Verify_outcome[OF l, where pm = wire_Marshal and c = zero_manager and bs = "[]"] l k w z
  show ?thesis by simp
qed

text \<open>
  C9. \<^verbatim>\<open>Verify\<close> never writes to its input: whatever it returns, every inner message
  and every envelope that existed before the call is unchanged, so the credential it was
  given reads as before (node id, operator type, timestamp and mac); the second MAC goes
  to at most one new object, the temporary.
\<close>
theorem Verify_frame:
  assumes "Verify pm c p s = (r, c', s')"
  shows "credentials s' = credentials s \<and>
         take (length (envelopes s)) (envelopes s') = envelopes s \<and>
         length (envelopes s') \<le> Suc (length (envelopes s)) \<and>
         load s' p = load s p"
proof (cases "envelope_at s p")
  case None
  with assms have "s' = s" by (simp add: Verify_def)
  then show ?thesis by simp
next
  case (Some a)
  have "\<exists>tmp. s' = s\<lparr>envelopes := envelopes s @ [tmp]\<rparr>"
    using assms unfolding Verify_eq[OF Some]
    by (auto split: sum.splits prod.splits option.splits any.splits)
  then obtain tmp where s': "s' = s\<lparr>envelopes := envelopes s @ [tmp]\<rparr>" by blast
  have p: "p < length (envelopes s)"
    using Some by (simp add: envelope_at_def split: if_splits)
  have "load s' p = load s p"
    using p by (simp add: s' load_def envelope_at_def nth_append deref_def)
  then show ?thesis by (simp add: s')
qed

theorem Verify_frame_witness:
  "Verify wire_Marshal zero_manager 0
      \<lparr>credentials = [], envelopes = [\<lparr>Credential = None, Mac = [5], unknownFieldsAC = []\<rparr>]\<rparr>
     = (Err (ErrorRecreatingMAC CouldntRetrieveHash), zero_manager,
        \<lparr>credentials = [],
          envelopes = [\<lparr>Credential = None, Mac = [5], unknownFieldsAC = []\<rparr>,
                       \<lparr>Credential = None, Mac = [], unknownFieldsAC = []\<rparr>]\<rparr>) \<and>
   load \<lparr>credentials = [],
          envelopes = [\<lparr>Credential = None, Mac = [5], unknownFieldsAC = []\<rparr>,
                       \<lparr>Credential = None, Mac = [], unknownFieldsAC = []\<rparr>]\<rparr> 0
     = load \<lparr>credentials = [], envelopes = [\<lparr>Credential = None, Mac = [5], unknownFieldsAC = []\<rparr>]\<rparr> 0"
proof -
  let ?s = "\<lparr>credentials = [], envelopes = [\<lparr>Credential = None, Mac = [5], unknownFieldsAC = []\<rparr>]\<rparr>"
  have e: "envelope_at ?s 0 = Some \<lparr>Credential = None, Mac = [5], unknownFieldsAC = []\<rparr>"
    by (simp add: envelope_at_def)
  have v: "Verify wire_Marshal zero_manager 0 ?s
     = (Err (ErrorRecreatingMAC CouldntRetrieveHash), zero_manager,
        \<lparr>credentials = [],
          envelopes = [\<lparr>Credential = None, Mac = [5], unknownFieldsAC = []\<rparr>,
                       \<lparr>Credential = None, Mac = [], unknownFieldsAC = []\<rparr>]\<rparr>)"
    by (simp add: Verify_eq[OF e] inner_def wire_Marshal_def Get_def zero_manager_def lent_def)
  from Verify_frame[OF v] v show ?thesis by simp
qed


lemma authenticateCredential_Ok_marshalled:
  assumes "authenticateCredential pm c p s = (Ok u, c', s')" and "envelope_at s p = Some a"
  shows "\<exists>bs. pm (CredentialMessage (inner s a)) = Inr bs"
  using assms
  by (auto simp: authenticateCredential_def split: sum.splits)

lemma Create_Ok_inputs:
  assumes "Create pm c t nodeID ot s = (Ok p, c', s')"
  shows "length nodeID = 20 \<and> (\<exists>bs. pm (CredentialMessage (Some (created nodeID t ot))) = Inr bs)"
proof -
  have len: "length nodeID = 20"
    using assms by (auto simp: Create_def split: if_splits)
  define s6 where "s6 = s\<lparr>credentials := credentials s @ [created nodeID t ot],
      envelopes := envelopes s @ [\<lparr>Credential = Some (length (credentials s)), Mac = [], unknownFieldsAC = []\<rparr>]\<rparr>"
  define a where "a = \<lparr>Credential = Some (length (credentials s)), Mac = ([]::bytes), unknownFieldsAC = []\<rparr>"
  have env: "envelope_at s6 (length (envelopes s)) = Some a"
    by (simp add: envelope_at_def s6_def a_def)
  have inn: "inner s6 a = Some (created nodeID t ot)"
    by (simp add: inner_def credential_at_def s6_def a_def)
  have steps: "modify_credential (length (credentials s)) (\<lambda>x. x\<lparr>Timestamp := Unix t\<rparr>)
      (modify_credential (length (credentials s)) (\<lambda>x. x\<lparr>OperatorType := ot\<rparr>)
        (modify_credential (length (credentials s)) (\<lambda>x. x\<lparr>NodeId := nodeID\<rparr>)
          (modify_envelope (length (envelopes s)) (\<lambda>a. a\<lparr>Credential := Some (length (credentials s))\<rparr>)
            (s\<lparr>envelopes := envelopes s @ [empty_envelope], credentials := credentials s @ [empty_Credential]\<rparr>)))) = s6"
    by (simp add: modify_credential_def modify_envelope_def s6_def empty_envelope_def
        empty_Credential_def created_def)
  have "\<exists>u c1 s1. authenticateCredential pm c (length (envelopes s)) s6 = (Ok u, c1, s1)"
    using assms len
    by (auto simp: Create_def new_envelope_def new_Credential_def Let_def steps
        split: prod.splits outcome.splits)
  then obtain u c1 s1 where "authenticateCredential pm c (length (envelopes s)) s6 = (Ok u, c1, s1)"
    by blast
  from authenticateCredential_Ok_marshalled[OF this env] inn len show ?thesis by simp
qed

text \<open>
  C10. \<^verbatim>\<open>Create\<close> is deterministic: two successful calls with the same timestamp, node
  id and operator type, on managers holding the same key (whatever their pools and
  whatever the memory), return credentials that read the same, mac included.
\<close>
theorem Create_deterministic:
  assumes "holds_key key c1" and "holds_key key c2"
    and "Create pm c1 timestamp nodeID operatorType s1 = (Ok p1, c1', s1')"
    and "Create pm c2 timestamp nodeID operatorType s2 = (Ok p2, c2', s2')"
  shows "\<exists>v. load s1' p1 = Some v \<and> load s2' p2 = Some v"
proof -
  from Create_Ok_inputs[OF assms(3)] obtain bs where len: "length nodeID = 20"
    and pm: "pm (CredentialMessage (Some (created nodeID timestamp operatorType))) = Inr bs"
    by blast
  note r1 = Create_result[where pm = pm and s = s1 and t = timestamp and ot = operatorType,
      OF assms(1) len pm]
  note r2 = Create_result[where pm = pm and s = s2 and t = timestamp and ot = operatorType,
      OF assms(2) len pm]
  from assms(3) r1 have "load s1' p1 = Some \<lparr>Credential = Some (created nodeID timestamp operatorType),
      Mac = hmac_sha256 key bs, unknownFieldsAC = []\<rparr>"
    by (auto simp: load_def envelope_at_def deref_def inner_def credential_at_def)
  moreover from assms(4) r2 have "load s2' p2 = Some \<lparr>Credential = Some (created nodeID timestamp operatorType),
      Mac = hmac_sha256 key bs, unknownFieldsAC = []\<rparr>"
    by (auto simp: load_def envelope_at_def deref_def inner_def credential_at_def)
  ultimately show ?thesis by simp
qed


theorem Create_deterministic_witness:
  "holds_key [9] (NewCredentialManager [9]) \<and>
   holds_key [9] (Put (Hash (hmac_New [9])) (NewCredentialManager [9])) \<and>
   (\<exists>p1 c1' s1' p2 c2' s2'.
      Create wire_Marshal (NewCredentialManager [9]) \<lparr>seconds = 5, nanoseconds = 0\<rparr> (replicate 20 1) 0
        \<lparr>credentials = [], envelopes = []\<rparr> = (Ok p1, c1', s1') \<and>
      Create wire_Marshal (Put (Hash (hmac_New [9])) (NewCredentialManager [9]))
        \<lparr>seconds = 5, nanoseconds = 7\<rparr> (replicate 20 1) 0
        \<lparr>credentials = [], envelopes = [\<lparr>Credential = None, Mac = [5], unknownFieldsAC = []\<rparr>]\<rparr>
        = (Ok p2, c2', s2') \<and>
      (\<exists>v. load s1' p1 = Some v \<and> load s2' p2 = Some v))"
proof -
  let ?c1 = "NewCredentialManager [9]"
  let ?c2 = "Put (Hash (hmac_New [9])) (NewCredentialManager [9])"
  let ?t1 = "\<lparr>seconds = 5, nanoseconds = 0\<rparr>"
  let ?t2 = "\<lparr>seconds = 5, nanoseconds = 7\<rparr>"
  let ?s1 = "\<lparr>credentials = [], envelopes = []\<rparr>"
  let ?s2 = "\<lparr>credentials = [], envelopes = [\<lparr>Credential = None, Mac = [5::byte], unknownFieldsAC = []\<rparr>]\<rparr>"
  have k1: "holds_key [9] ?c1" by (rule holds_key_New)
  have k2: "holds_key [9] ?c2" by (intro holds_key_Put holds_key_New)
  have l: "length (replicate 20 (1::byte)) = 20" by simp
  have t: "created (replicate 20 1) ?t2 0 = created (replicate 20 1) ?t1 0"
    by (simp add: created_def Unix_def)
  have pm: "wire_Marshal (CredentialMessage (Some (created (replicate 20 1) ?t1 0)))
          = Inr (encode_Credential (created (replicate 20 1) ?t1 0))"
    by simp
  note r1 = Create_result[where pm = wire_Marshal and s = ?s1 and t = ?t1 and ot = 0, OF k1 l pm]
  note r2 = Create_result[where pm = wire_Marshal and s = ?s2 and t = ?t1 and ot = 0, OF k2 l pm]
  have u: "Create wire_Marshal ?c2 ?t2 (replicate 20 1) 0 ?s2 = Create wire_Marshal ?c2 ?t1 (replicate 20 1) 0 ?s2"
    by (simp add: Create_def Unix_def)
  from Create_deterministic[OF k1 k2 r1 r2] k1 k2 r1 r2 u
  show ?thesis by (metis (no_types, lifting))
qed

section \<open>Properties of the encodings\<close>

subsection \<open>Base64 and hexadecimal\<close>

lemma byte_eqI:
  assumes "bit x 0 = bit y 0" "bit x 1 = bit y 1" "bit x 2 = bit y 2" "bit x 3 = bit y 3"
    "bit x 4 = bit y 4" "bit x 5 = bit y 5" "bit x 6 = bit y 6" "bit x 7 = bit y 7"
  shows "x = (y::byte)"
proof (rule bit_eqI)
  fix n
  assume "possible_bit TYPE(byte) n"
  then have "n < 8" by simp
  then have "n \<in> {0, 1, 2, 3, 4, 5, 6, 7}" by auto
  with assms show "bit x n = bit y n" by auto
qed

lemma bit_byte_high [simp]: "8 \<le> n \<Longrightarrow> bit (b::byte) n = False"
  using bit_imp_le_length[of b n] by auto

lemma mask6: "(0x3f :: 32 word) = mask 6" by (simp add: mask_eq_exp_minus_1)

lemma bytes3_partial1:
  "take 1 (bytes3 (from_sextets (sextet 0 (val3 a 0 0)) (sextet 1 (val3 a 0 0)) 0 0)) = [a]"
  unfolding from_sextets_def sextet_def val3_def mask6 bytes3_def
  apply simp
  apply (rule byte_eqI)
  apply (simp_all add: bit_simps)
  done

lemma bytes3_partial2:
  "take 2 (bytes3 (from_sextets (sextet 0 (val3 a b 0)) (sextet 1 (val3 a b 0)) (sextet 2 (val3 a b 0)) 0)) = [a, b]"
  unfolding from_sextets_def sextet_def val3_def mask6 bytes3_def
  apply simp
  apply (intro conjI byte_eqI)
  apply (simp_all add: bit_simps)
  done

lemma bytes3_full:
  "bytes3 (from_sextets (sextet 0 (val3 a b c)) (sextet 1 (val3 a b c)) (sextet 2 (val3 a b c)) (sextet 3 (val3 a b c))) = [a, b, c]"
  unfolding from_sextets_def sextet_def val3_def mask6 bytes3_def
  apply simp
  apply (intro conjI byte_eqI)
  apply (simp_all add: bit_simps)
  done

lemma sextet_lt: "unat (sextet i v) < 64"
proof -
  have "sextet i v \<le> mask 6" unfolding sextet_def mask6 by (rule word_and_le1)
  then show ?thesis by (simp add: word_le_nat_alt mask_eq_exp_minus_1)
qed

lemma index_of_nth: "distinct xs \<Longrightarrow> i < length xs \<Longrightarrow> index_of xs (xs ! i) = Some i"
proof (induction xs arbitrary: i)
  case Nil then show ?case by simp
next
  case (Cons x xs)
  show ?case
  proof (cases i)
    case 0 then show ?thesis by simp
  next
    case (Suc j)
    with Cons.prems have "xs ! j \<in> set xs" by simp
    with Cons.prems have "x \<noteq> xs ! j" by auto
    with Cons Suc show ?thesis by simp
  qed
qed

lemma index_of_None: "c \<notin> set xs \<Longrightarrow> index_of xs c = None"
  by (induction xs) auto

lemma index_of_Some: "index_of xs c = Some i \<Longrightarrow> i < length xs \<and> xs ! i = c"
  by (induction xs arbitrary: i) (auto split: if_splits)

lemma distinct_encodeURL: "distinct encodeURL"
  by (simp add: encodeURL_def)

lemma length_encodeURL: "length encodeURL = 64"
  by (simp add: encodeURL_def)

lemma dec_enc: "dec (enc (sextet i v)) = Some (sextet i v)"
  using sextet_lt[of i v]
  by (simp add: dec_def enc_def index_of_nth distinct_encodeURL length_encodeURL)

lemma enc_in: "enc (sextet i v) \<in> set encodeURL"
  using sextet_lt[of i v] by (simp add: enc_def length_encodeURL)

lemma dec_pad: "dec CHR ''='' = None"
  by (simp add: dec_def index_of_None encodeURL_def)

lemma enc_not_special:
  "enc (sextet i v) \<noteq> CHR 0x0A" "enc (sextet i v) \<noteq> CHR 0x0D" "enc (sextet i v) \<noteq> CHR ''=''"
  using enc_in[of i v] by (auto simp: encodeURL_def)

lemma filter_base64_Encode:
  "filter (\<lambda>b. \<not> line_break b) (base64_Encode bs) = base64_Encode bs"
  by (induction bs rule: base64_Encode.induct) (simp_all add: Let_def enc_not_special line_break_def)

lemma Decode_Encode: "Decode (base64_Encode bs) = Inr bs"
proof (induction bs rule: base64_Encode.induct)
  case (1 a b c rest)
  then show ?case using bytes3_full[of a b c] by (simp add: Let_def dec_enc)
next
  case (2 a b)
  then show ?case using bytes3_partial2[of a b] by (simp add: Let_def dec_enc dec_pad after_padding_def)
next
  case (3 a)
  then show ?case using bytes3_partial1[of a] by (simp add: Let_def dec_enc dec_pad after_padding_def)
next
  case 4
  then show ?case by simp
qed

subsection \<open>The base64 decoder under \<^verbatim>\<open>io.ReadAll\<close>\<close>

lemma refill_reading:
  "reading d \<Longrightarrow> reading (refill plen d) \<and> pending (refill plen d) = pending d"
proof (induction plen d rule: refill.induct)
  case (1 plen d)
  show ?case
  proof (cases "length (d_buf d) < 4 \<and> d_readErr d = None")
    case False
    then have "refill plen d = d" by (subst refill.simps) (simp only: if_False)
    with "1.prems" show ?thesis by simp
  next
    case True
    let ?nn = "if 1024 < (if plen div 3 * 4 < 4 then 4 else plen div 3 * 4) then 1024
               else (if plen div 3 * 4 < 4 then 4 else plen div 3 * 4)"
    obtain p e s' where r: "newlineFilteringReader_Read (?nn - length (d_buf d)) (d_r d) = (p, e, s')"
      by (metis prod_cases3)
    let ?d = "d\<lparr>d_readErr := e, d_r := s', d_buf := d_buf d @ p\<rparr>"
    have pos: "0 < ?nn - length (d_buf d)" using True by auto
    have step: "refill plen d = refill plen ?d"
      by (subst refill.simps) (simp only: True if_True Let_def r prod.case simp_thms)
    note c = newlineFilteringReader_Read_cases[OF pos r]
    from c "1.prems" have rd: "reading ?d" by (auto simp: reading_def)
    from c have pd: "pending ?d = pending d" by (simp add: pending_def)
    from "1.IH"[OF True refl refl refl r[symmetric] refl rd] pd
    show ?thesis unfolding step by simp
  qed
qed

lemma Decode_short: "length t < 4 \<Longrightarrow> t \<noteq> [] \<Longrightarrow> Decode t = Inl CorruptInputError"
proof -
  assume a: "length t < 4" "t \<noteq> []"
  then obtain a where "t = [a] \<or> (\<exists>b. t = [a, b]) \<or> (\<exists>b c. t = [a, b, c])"
    by (cases t; cases "tl t"; cases "tl (tl t)"; cases "tl (tl (tl t))") auto
  then show ?thesis by auto
qed

lemma Decode_error: "Decode t = Inl e \<Longrightarrow> e = CorruptInputError"
proof (induction t rule: Decode.induct)
  case (1 a b c d rest)
  then show ?case
    by (auto simp: after_padding_def split: option.splits sum.splits if_splits)
qed simp_all

lemma Decode_split:
  "length ck mod 4 = 0 \<Longrightarrow> Decode (ck @ t) = Inr rest \<Longrightarrow>
   \<exists>r1 r2. Decode ck = Inr r1 \<and> Decode t = Inr r2 \<and> rest = r1 @ r2"
proof (induction ck arbitrary: rest rule: Decode.induct)
  case (1 a b c d ck)
  from "1.prems"(1) have m: "length ck mod 4 = 0" by simp
  from "1.prems"(2) have full: "Decode (a # b # c # d # (ck @ t)) = Inr rest" by simp
  show ?case
  proof (cases "\<exists>x y z w. dec a = Some x \<and> dec b = Some y \<and> dec c = Some z \<and> dec d = Some w")
    case True
    then obtain x y z w where da: "dec a = Some x" and db: "dec b = Some y" and dc: "dec c = Some z"
      and dd: "dec d = Some w" by blast
    from full da db dc dd obtain o' where r: "Decode (ck @ t) = Inr o'"
      and out: "rest = bytes3 (from_sextets x y z w) @ o'"
      by (auto split: sum.splits)
    from "1.IH"[OF refl da db dc dd m r] obtain r1 r2 where
      "Decode ck = Inr r1" "Decode t = Inr r2" "o' = r1 @ r2" by blast
    with da db dc dd out show ?thesis by simp
  next
    case False
    with full have e: "ck @ t = []"
      by (auto simp: after_padding_def split: option.splits sum.splits if_splits)
    with full show ?thesis
      by (auto simp: after_padding_def split: option.splits sum.splits if_splits)
  qed
qed simp_all


lemma decoder_Read_step:
  assumes rd: "reading d" and pos: "0 < plen" and step: "decoder_Read plen d = (p, e, d')"
  obtains (more) ck r1 where "e = None" "reading d'" "pending d = ck @ pending d'"
      "length ck mod 4 = 0" "Decode ck = Inr r1" "d_out d @ r1 = p @ d_out d'"
      "d_out d = [] \<longrightarrow> d_r d' = d_r (refill plen d) \<and> length (d_buf d') < 4"
    | (eof) "e = Some EOF" "pending d = []" "p = []" "d_out d = []"
    | (short) "e = Some ErrUnexpectedEOF" "pending d \<noteq> []" "length (pending d) < 4"
    | (bad) ck t where "e = Some CorruptInputError" "pending d = ck @ t" "length ck mod 4 = 0"
        "Decode ck = Inl CorruptInputError"
proof (cases "d_out d \<noteq> []")
  case True
  with step have "p = take plen (d_out d)" "e = None" "d' = d\<lparr>d_out := drop plen (d_out d)\<rparr>"
    by (simp_all add: decoder_Read_def)
  with rd True show ?thesis by (intro more[of "[]" "[]"]) (simp_all add: reading_def pending_def)
next
  case False
  then have o: "d_out d = []" by simp
  from rd have ne: "d_err d = None" by (simp add: reading_def)
  let ?d1 = "refill plen d"
  from refill_reading[OF rd] have rd1: "reading ?d1" and pd1: "pending ?d1 = pending d" by simp_all
  note ru = refill_unread[of plen d]
  from ru o have o1: "d_out ?d1 = []" by simp
  show ?thesis
  proof (cases "length (d_buf ?d1) < 4")
    case True
    with ru have "d_readErr ?d1 \<noteq> None" by auto
    with rd1 have ended: "d_readErr ?d1 = Some EOF" and r1: "d_r ?d1 = []" by (auto simp: reading_def)
    from r1 pd1 have pb: "pending d = d_buf ?d1" by (simp add: pending_def)
    from step o ne True ended have
      pe: "p = []" "e = (if d_buf ?d1 \<noteq> [] then Some ErrUnexpectedEOF else Some EOF)"
      by (auto simp: decoder_Read_def Let_def)
    show ?thesis
    proof (cases "d_buf ?d1 = []")
      case True
      with pe pb o show ?thesis by (intro eof) simp_all
    next
      case False
      with pe pb True show ?thesis by (intro short) simp_all
    qed
  next
    case big: False
    let ?nr = "length (d_buf ?d1) div 4 * 4"
    let ?ck = "take ?nr (d_buf ?d1)"
    let ?d2 = "?d1\<lparr>d_buf := drop ?nr (d_buf ?d1)\<rparr>"
    have "?nr \<le> length (d_buf ?d1)" by (rule div_times_less_eq_dividend)
    then have "length ?ck = ?nr" by simp
    then have lck: "length ?ck mod 4 = 0" by simp
    have "?ck @ pending ?d2 = pending ?d1"
      by (simp add: pending_def append_assoc[symmetric] del: append_assoc)
    with pd1 have pck: "pending d = ?ck @ pending ?d2" by simp
    show ?thesis
    proof (cases "Decode ?ck")
      case (Inl err)
      from Decode_error[OF Inl] Inl have c: "Decode ?ck = Inl CorruptInputError" by simp
      from step o ne big c have "e = Some CorruptInputError" by (simp add: decoder_Read_def Let_def)
      with pck lck c show ?thesis by (intro bad[of ?ck "pending ?d2"])
    next
      case (Inr r1)
      have "length (d_buf ?d1) - ?nr = length (d_buf ?d1) mod 4"
        by (simp add: minus_div_mult_eq_mod)
      then have "length (d_buf ?d2) < 4" by simp
      with step o ne big Inr have
        "e = None \<and> p @ d_out d' = r1 \<and> pending d' = pending ?d2 \<and> reading d' \<and>
         d_r d' = d_r ?d1 \<and> length (d_buf d') < 4"
        using rd1 o1 by (auto simp: decoder_Read_def Let_def pending_def reading_def split: if_splits)
      with pck lck Inr o show ?thesis by (intro more[of ?ck r1]) simp_all
    qed
  qed
qed

lemma ReadAll_from_well_formed:
  "reading d \<Longrightarrow> Decode (pending d) = Inr rest \<Longrightarrow>
   ReadAll_from grow b c d = Inr (b @ d_out d @ rest)"
proof (induction grow b c d arbitrary: rest rule: ReadAll_from.induct)
  case (1 grow b c d)
  let ?c = "if c \<le> length b then max (Suc (length b)) (grow c) else c"
  obtain p e d' where step: "decoder_Read (?c - length b) d = (p, e, d')" by (metis prod_cases3)
  have pos: "0 < ?c - length b" by auto
  have unf: "ReadAll_from grow b c d =
     (case e of Some err \<Rightarrow> if err = EOF then Inr (b @ p) else Inl err
      | None \<Rightarrow> ReadAll_from grow (b @ p) ?c d')"
    by (subst ReadAll_from.simps) (simp only: Let_def step prod.case)
  from "1.prems"(1) pos step show ?case
  proof (cases rule: decoder_Read_step)
    case (more ck r1)
    from "1.prems"(2) more(3) have "Decode (ck @ pending d') = Inr rest" by simp
    from Decode_split[OF more(4) this] more(5) obtain r2 where
      r2: "Decode (pending d') = Inr r2" and rest: "rest = r1 @ r2" by auto
    from "1.IH"[OF refl step[symmetric] refl more(1) more(2) r2]
    have "ReadAll_from grow (b @ p) ?c d' = Inr ((b @ p) @ d_out d' @ r2)" .
    with unf more(1,6) rest show ?thesis by (simp add: append_assoc[symmetric] del: append_assoc)
  next
    case eof
    with "1.prems"(2) have "rest = []" by simp
    with unf eof show ?thesis by simp
  next
    case short
    from Decode_short[OF short(3,2)] "1.prems"(2) show ?thesis by simp
  next
    case (bad ck t)
    from "1.prems"(2) bad(2) have "Decode (ck @ t) = Inr rest" by simp
    from Decode_split[OF bad(3) this] bad(4) show ?thesis by auto
  qed
qed


lemma reading_NewDecoder: "reading (NewDecoder s)"
  by (simp add: reading_def NewDecoder_def)

lemma pending_NewDecoder: "pending (NewDecoder s) = filter (\<lambda>b. \<not> line_break b) s"
  by (simp add: pending_def NewDecoder_def)

lemma out_NewDecoder: "d_out (NewDecoder s) = []"
  by (simp add: NewDecoder_def)

lemma ReadAll_well_formed:
  "Decode (filter (\<lambda>b. \<not> line_break b) s) = Inr bs \<Longrightarrow> ReadAll grow (NewDecoder s) = Inr bs"
  using ReadAll_from_well_formed[OF reading_NewDecoder, of s bs grow "[]" 512]
  by (simp add: pending_NewDecoder ReadAll_def out_NewDecoder)







lemma ReadAll_Nil: "ReadAll grow (NewDecoder []) = Inr []"
  by (rule ReadAll_well_formed) simp







lemma ReadAll_Encode: "ReadAll grow (NewDecoder (base64_Encode bs)) = Inr bs"
  by (rule ReadAll_well_formed) (simp add: filter_base64_Encode Decode_Encode)

subsection \<open>Hexadecimal\<close>









subsection \<open>Varints\<close>

lemma low7_plus_high: "(v AND 0x7f) + push_bit 7 (drop_bit 7 v) = (v::64 word)"
proof -
  have "(0x7f :: 64 word) = mask 7" by (simp add: mask_eq_exp_minus_1)
  then have "v AND 0x7f = take_bit 7 v" by (simp add: take_bit_eq_mask)
  then show ?thesis using bits_ident[of 7 v] by (simp add: add.commute)
qed

lemma m7_64: "(0x7f :: 64 word) = mask 7" by (simp add: mask_eq_exp_minus_1)
lemma m7_8: "(0x7f :: byte) = mask 7" by (simp add: mask_eq_exp_minus_1)
lemma p7_8: "(0x80 :: byte) = 2 ^ 7" by simp

lemma take_bit_self_unat: "unat (w::'a::len word) < 2 ^ k \<Longrightarrow> take_bit k w = w"
  by (simp add: word_unat_eq_iff unsigned_take_bit_eq take_bit_nat_eq_self)

lemma small_word_bit:
  assumes "unat (v::64 word) < 2 ^ k" and "bit v n"
  shows "n < k"
proof -
  from assms(1) have tb: "take_bit k v = v" by (rule take_bit_self_unat)
  from assms(2) have "bit (take_bit k v) n" by (simp only: tb)
  then show ?thesis by (simp add: bit_take_bit_iff)
qed

lemma F1a: "unat (v::64 word) < 256 \<Longrightarrow> unat (ucast v :: byte) = unat v"
  by (simp add: unsigned_ucast_eq take_bit_nat_eq_self)

lemma F1b: "unat (v::64 word) < 256 \<Longrightarrow> (ucast (ucast v :: byte) :: 64 word) = v"
  apply (rule bit_eqI)
  apply (auto simp: bit_simps dest: small_word_bit[where k = 8, simplified])
  done

lemma F2: "\<not> (ucast (v AND 0x7f) OR (0x80::byte)) < 0x80"
proof
  let ?y = "ucast (v AND 0x7f) OR (0x80::byte)"
  assume "?y < 0x80"
  then have "unat ?y < 2 ^ 7" by (simp add: word_less_nat_alt)
  then have tb: "take_bit 7 ?y = ?y" by (rule take_bit_self_unat)
  have "bit ?y 7" unfolding p7_8 by (simp add: bit_simps)
  then have "bit (take_bit 7 ?y) 7" by (simp only: tb)
  then show False by (simp add: bit_take_bit_iff)
qed

lemma F3a: "(ucast ((v::64 word) AND 0x7f) OR 0x80 :: byte) AND 0x7f = ucast (v AND 0x7f)"
  unfolding m7_64 m7_8 p7_8
  apply (rule byte_eqI)
  apply (simp_all add: bit_simps)
  done

lemma F3b: "(ucast (ucast ((v::64 word) AND 0x7f) :: byte) :: 64 word) = v AND 0x7f"
  unfolding m7_64
  apply (rule bit_eqI)
  apply (auto simp: bit_simps)
  done

lemma ConsumeVarint_from_Append:
  "i \<le> 9 \<Longrightarrow> unat v < 2 ^ (64 - 7 * i) \<Longrightarrow>
   ConsumeVarint_from i (AppendVarint v @ rest) = Some (push_bit (7 * i) v, rest)"
proof (induction v arbitrary: i rule: AppendVarint.induct)
  case (1 v)
  show ?case
  proof (cases "v < 0x80")
    case True
    then have small: "unat v < 128" by (simp add: word_less_nat_alt)
    then have y: "unat (ucast v :: byte) = unat v" and again: "(ucast (ucast v :: byte) :: 64 word) = v"
      by (simp_all add: F1a F1b)
    have ylt: "(ucast v :: byte) < 0x80" using small y by (simp add: word_less_nat_alt)
    show ?thesis
    proof (cases "i = 9")
      case True
      with "1.prems" have "unat v < 2" by simp
      with y have "(ucast v :: byte) < 2" by (simp add: word_less_nat_alt)
      with True \<open>v < 0x80\<close> again show ?thesis
        by (subst AppendVarint.simps) simp
    next
      case False
      with "1.prems" have "\<not> 9 \<le> i" by simp
      with \<open>v < 0x80\<close> ylt again show ?thesis
        by (subst AppendVarint.simps) simp
    qed
  next
    case False
    then have big: "128 \<le> unat v" by (simp add: word_less_nat_alt not_less)
    have i: "i < 9"
    proof (rule ccontr)
      assume "\<not> i < 9"
      with "1.prems" have "i = 9" by simp
      with "1.prems" have "unat v < 2" by simp
      with big show False by simp
    qed
    have "unat (drop_bit 7 v) = unat v div 2 ^ 7" by (simp add: drop_bit_eq_div unat_div)
    moreover have "64 - 7 * i = 7 + (64 - 7 * Suc i)" using i by simp
    then have "(2::nat) ^ (64 - 7 * i) = 2 ^ 7 * 2 ^ (64 - 7 * Suc i)"
      by (simp only: power_add)
    ultimately have "unat (drop_bit 7 v) < 2 ^ (64 - 7 * Suc i)"
      using "1.prems"(2) by (simp add: less_mult_imp_div_less mult.commute)
    with "1.IH"[OF False, of "Suc i"] i
    have IH: "ConsumeVarint_from (Suc i) (AppendVarint (drop_bit 7 v) @ rest)
                = Some (push_bit (7 * Suc i) (drop_bit 7 v), rest)" by simp
    have "push_bit (7 * i) (v AND 0x7f) + push_bit (7 * Suc i) (drop_bit 7 v)
            = push_bit (7 * i) ((v AND 0x7f) + push_bit 7 (drop_bit 7 v))"
      by (simp add: push_bit_add add.commute)
    then have sum: "push_bit (7 * i) (v AND 0x7f) + push_bit (7 * Suc i) (drop_bit 7 v) = push_bit (7 * i) v"
      by (simp only: low7_plus_high)
    show ?thesis
      using False i IH sum
      by (subst AppendVarint.simps) (simp add: F2 F3a F3b)
  qed
qed

lemma ConsumeVarint_Append: "ConsumeVarint (AppendVarint v @ rest) = Some (v, rest)"
proof -
  have "unat v < 2 ^ 64" using unsigned_less[of v, where ?'a = nat] by simp
  then show ?thesis
    using ConsumeVarint_from_Append[of 0 v rest] by (simp add: ConsumeVarint_def)
qed

subsection \<open>Messages on the wire\<close>

lemma AppendVarint_not_Nil: "AppendVarint v \<noteq> []"
  by (subst AppendVarint.simps) simp

lemma AppendTag_not_Nil: "AppendTag num typ \<noteq> []"
  by (simp add: AppendTag_def AppendVarint_not_Nil)

lemma length_AppendVarint_le:
  "unat v < 2 ^ (7 * k) \<Longrightarrow> 0 < k \<Longrightarrow> length (AppendVarint v) \<le> k"
proof (induction v arbitrary: k rule: AppendVarint.induct)
  case (1 v)
  show ?case
  proof (cases "v < 0x80")
    case True
    with "1.prems" show ?thesis by (subst AppendVarint.simps) simp
  next
    case False
    then have big: "128 \<le> unat v" by (simp add: word_less_nat_alt not_less)
    obtain j where k: "k = Suc j" using "1.prems" by (cases k) auto
    have j: "0 < j"
    proof (rule ccontr)
      assume "\<not> 0 < j"
      with k "1.prems" have "unat v < 2 ^ 7" by simp
      with big show False by simp
    qed
    have "unat (drop_bit 7 v) = unat v div 2 ^ 7" by (simp add: drop_bit_eq_div unat_div)
    moreover have "(2::nat) ^ (7 * k) = 2 ^ 7 * 2 ^ (7 * j)"
      unfolding k by (simp only: mult_Suc_right power_add)
    ultimately have "unat (drop_bit 7 v) < 2 ^ (7 * j)"
      using "1.prems"(1) by (simp add: less_mult_imp_div_less mult.commute)
    from "1.IH"[OF False this j] False k show ?thesis
      by (subst AppendVarint.simps) simp
  qed
qed

lemma length_AppendVarint: "length (AppendVarint v) \<le> 10"
proof -
  have "unat v < 2 ^ 64" using unsigned_less[of v, where ?'a = nat] by simp
  also have "(2::nat) ^ 64 \<le> 2 ^ (7 * 10)" by simp
  finally show ?thesis by (intro length_AppendVarint_le) simp_all
qed

lemma ConsumeBytes_Append:
  "length v < 2 ^ 64 \<Longrightarrow> ConsumeBytes (AppendBytes v @ rest) = Some (v, rest)"
  by (simp add: ConsumeBytes_def AppendBytes_def ConsumeVarint_Append unat_of_nat)

lemma ConsumeVarint_Tag:
  "ConsumeVarint (AppendTag num typ @ rest) = Some (push_bit 3 num OR (typ AND 7), rest)"
  by (simp add: AppendTag_def ConsumeVarint_Append)

lemma tags [simp]:
  "push_bit 3 field_node_id OR (BytesType AND 7) = 10"
  "push_bit 3 field_timestamp OR (VarintType AND 7) = 16"
  "push_bit 3 field_operator_type OR (VarintType AND 7) = 24"
  "push_bit 3 field_credential OR (BytesType AND 7) = 10"
  "push_bit 3 field_mac OR (BytesType AND 7) = 18"
  by (simp_all add: field_node_id_def field_timestamp_def field_operator_type_def
      field_credential_def field_mac_def BytesType_def VarintType_def)

lemma field_Credential_node_id:
  "length v < 2 ^ 64 \<Longrightarrow>
   field_Credential m (AppendTag field_node_id BytesType @ AppendBytes v @ rest)
     = Some (m\<lparr>NodeId := v\<rparr>, rest)"
  by (simp add: field_Credential_def ConsumeVarint_Tag ConsumeBytes_Append Let_def
      MaxValidNumber_def EndGroupType_def field_node_id_def BytesType_def)

lemma field_Credential_timestamp:
  "field_Credential m (AppendTag field_timestamp VarintType @ AppendVarint v @ rest)
     = Some (m\<lparr>Timestamp := v\<rparr>, rest)"
  by (simp add: field_Credential_def ConsumeVarint_Tag ConsumeVarint_Append Let_def
      MaxValidNumber_def EndGroupType_def field_node_id_def field_timestamp_def
      BytesType_def VarintType_def)

lemma field_Credential_operator_type:
  "field_Credential m (AppendTag field_operator_type VarintType @ AppendVarint v @ rest)
     = Some (m\<lparr>OperatorType := ucast v\<rparr>, rest)"
  by (simp add: field_Credential_def ConsumeVarint_Tag ConsumeVarint_Append Let_def
      MaxValidNumber_def EndGroupType_def field_node_id_def field_timestamp_def
      field_operator_type_def BytesType_def VarintType_def)

lemma unmarshal_Credential_Nil: "unmarshal_Credential m [] = Some m"
  by (subst unmarshal_Credential.simps) simp

lemma unmarshal_Credential_field:
  "b \<noteq> [] \<Longrightarrow> field_Credential m b = Some (m', rest) \<Longrightarrow>
   unmarshal_Credential m b = unmarshal_Credential m' rest"
  by (subst unmarshal_Credential.simps) simp

lemma ucast_scast_32: "(ucast (scast (x :: 32 word) :: 64 word) :: 32 word) = x"
  apply (rule bit_eqI)
  apply (auto simp: bit_simps)
  done

lemma unmarshal_encode_Credential:
  assumes "unknownFields c = []" and "length (NodeId c) < 2 ^ 64"
  shows "unmarshal_Credential empty_Credential (encode_Credential c) = Some c"
proof -
  define t where "t = (if OperatorType c = 0 then []
      else AppendTag field_operator_type VarintType @ AppendVarint (scast (OperatorType c)))"
  define u where "u = (if Timestamp c = 0 then []
      else AppendTag field_timestamp VarintType @ AppendVarint (Timestamp c)) @ t"
  have 3: "unmarshal_Credential m t = Some (m\<lparr>OperatorType := OperatorType c\<rparr>)"
    if "OperatorType m = 0" for m
  proof (cases "OperatorType c = 0")
    case True
    with that show ?thesis by (simp add: t_def unmarshal_Credential_Nil)
  next
    case False
    then have t: "t = AppendTag field_operator_type VarintType @ AppendVarint (scast (OperatorType c)) @ []"
      by (simp add: t_def)
    have ne: "AppendTag field_operator_type VarintType @ AppendVarint (scast (OperatorType c)) @ [] \<noteq> []"
      by (simp add: AppendTag_not_Nil)
    have f: "field_Credential m
               (AppendTag field_operator_type VarintType @ AppendVarint (scast (OperatorType c)) @ [])
             = Some (m\<lparr>OperatorType := ucast (scast (OperatorType c) :: 64 word)\<rparr>, [])"
      by (rule field_Credential_operator_type)
    from unmarshal_Credential_field[OF ne f] t show ?thesis
      by (simp add: unmarshal_Credential_Nil ucast_scast_32)
  qed
  have 2: "unmarshal_Credential m u = Some (m\<lparr>Timestamp := Timestamp c, OperatorType := OperatorType c\<rparr>)"
    if "OperatorType m = 0" "Timestamp m = 0" for m
  proof (cases "Timestamp c = 0")
    case True
    with that 3[of m] show ?thesis by (simp add: u_def)
  next
    case False
    then have u: "u = AppendTag field_timestamp VarintType @ AppendVarint (Timestamp c) @ t"
      by (simp add: u_def)
    have ne: "AppendTag field_timestamp VarintType @ AppendVarint (Timestamp c) @ t \<noteq> []"
      by (simp add: AppendTag_not_Nil)
    have f: "field_Credential m (AppendTag field_timestamp VarintType @ AppendVarint (Timestamp c) @ t)
             = Some (m\<lparr>Timestamp := Timestamp c\<rparr>, t)"
      by (rule field_Credential_timestamp)
    from unmarshal_Credential_field[OF ne f] u 3[of "m\<lparr>Timestamp := Timestamp c\<rparr>"] that
    show ?thesis by simp
  qed
  have enc: "encode_Credential c =
      (if NodeId c = [] then [] else AppendTag field_node_id BytesType @ AppendBytes (NodeId c)) @ u"
    using assms(1) by (simp add: encode_Credential_def u_def t_def)
  show ?thesis
  proof (cases "NodeId c = []")
    case True
    with enc 2[of empty_Credential] assms(1) show ?thesis
      by (simp add: empty_Credential_def)
  next
    case False
    then have e: "encode_Credential c = AppendTag field_node_id BytesType @ AppendBytes (NodeId c) @ u"
      using enc by simp
    have ne: "AppendTag field_node_id BytesType @ AppendBytes (NodeId c) @ u \<noteq> []"
      by (simp add: AppendTag_not_Nil)
    have f: "field_Credential empty_Credential (AppendTag field_node_id BytesType @ AppendBytes (NodeId c) @ u)
               = Some (empty_Credential\<lparr>NodeId := NodeId c\<rparr>, u)"
      by (rule field_Credential_node_id[OF assms(2)])
    from unmarshal_Credential_field[OF ne f] 2[of "empty_Credential\<lparr>NodeId := NodeId c\<rparr>"] e assms(1)
    show ?thesis by (simp add: empty_Credential_def)
  qed
qed

lemma length_encode_Credential:
  "unknownFields c = [] \<Longrightarrow> length (encode_Credential c) \<le> length (NodeId c) + 60"
proof -
  have v: "length (AppendVarint x) \<le> 10" for x by (rule length_AppendVarint)
  have t: "length (AppendTag n ty) \<le> 10" for n ty by (simp add: AppendTag_def v)
  assume "unknownFields c = []"
  then show ?thesis
    using v[of "of_nat (length (NodeId c))"] v[of "Timestamp c"] v[of "scast (OperatorType c)"]
      t[of field_node_id BytesType] t[of field_timestamp VarintType] t[of field_operator_type VarintType]
    by (simp add: encode_Credential_def AppendBytes_def)
qed

lemma field_AuthenticatedCredential_credential:
  assumes "length (encode_Credential c) < 2 ^ 64" and "unknownFields c = []"
    and "length (NodeId c) < 2 ^ 64" and "Credential m = None"
  shows "field_AuthenticatedCredential m
           (AppendTag field_credential BytesType @ AppendBytes (encode_Credential c) @ rest)
         = Some (m\<lparr>Credential := Some c\<rparr>, rest)"
  using assms
  by (simp add: field_AuthenticatedCredential_def ConsumeVarint_Tag ConsumeBytes_Append Let_def
      MaxValidNumber_def EndGroupType_def field_credential_def BytesType_def
      unmarshal_encode_Credential)

lemma field_AuthenticatedCredential_mac:
  "length v < 2 ^ 64 \<Longrightarrow>
   field_AuthenticatedCredential m (AppendTag field_mac BytesType @ AppendBytes v @ rest)
     = Some (m\<lparr>Mac := v\<rparr>, rest)"
  by (simp add: field_AuthenticatedCredential_def ConsumeVarint_Tag ConsumeBytes_Append Let_def
      MaxValidNumber_def EndGroupType_def field_credential_def field_mac_def BytesType_def)

lemma unmarshal_AuthenticatedCredential_Nil: "unmarshal_AuthenticatedCredential m [] = Some m"
  by (subst unmarshal_AuthenticatedCredential.simps) simp

lemma unmarshal_AuthenticatedCredential_field:
  "b \<noteq> [] \<Longrightarrow> field_AuthenticatedCredential m b = Some (m', rest) \<Longrightarrow>
   unmarshal_AuthenticatedCredential m b = unmarshal_AuthenticatedCredential m' rest"
  by (subst unmarshal_AuthenticatedCredential.simps) simp

lemma wire_Unmarshal_encode:
  assumes "plain a"
  shows "wire_Unmarshal (encode_AuthenticatedCredential a) = Inr a"
proof -
  from assms have ua: "unknownFieldsAC a = []" and lm: "length (Mac a) < 2 ^ 64"
    by (simp_all add: plain_def)
  define t where "t = (if Mac a = [] then [] else AppendTag field_mac BytesType @ AppendBytes (Mac a))"
  have 2: "unmarshal_AuthenticatedCredential m t = Some (m\<lparr>Mac := Mac a\<rparr>)" if "Mac m = []" for m
  proof (cases "Mac a = []")
    case True
    with that show ?thesis by (simp add: t_def unmarshal_AuthenticatedCredential_Nil)
  next
    case False
    then have t: "t = AppendTag field_mac BytesType @ AppendBytes (Mac a) @ []" by (simp add: t_def)
    have ne: "AppendTag field_mac BytesType @ AppendBytes (Mac a) @ [] \<noteq> []"
      by (simp add: AppendTag_not_Nil)
    have f: "field_AuthenticatedCredential m (AppendTag field_mac BytesType @ AppendBytes (Mac a) @ [])
               = Some (m\<lparr>Mac := Mac a\<rparr>, [])"
      by (rule field_AuthenticatedCredential_mac[OF lm])
    from unmarshal_AuthenticatedCredential_field[OF ne f] t show ?thesis
      by (simp add: unmarshal_AuthenticatedCredential_Nil)
  qed
  have "unmarshal_AuthenticatedCredential empty_envelope (encode_AuthenticatedCredential a) = Some a"
  proof (cases "Credential a")
    case None
    then have "encode_AuthenticatedCredential a = t"
      using ua by (simp add: encode_AuthenticatedCredential_def t_def)
    with 2[of empty_envelope] None ua show ?thesis by (simp add: empty_envelope_def)
  next
    case (Some c)
    with assms have uc: "unknownFields c = []" and ln: "length (NodeId c) < 2 ^ 63"
      by (simp_all add: plain_def)
    from length_encode_Credential[OF uc] ln have le: "length (encode_Credential c) < 2 ^ 64" by simp
    from ln have ln': "length (NodeId c) < 2 ^ 64" by simp
    have e: "encode_AuthenticatedCredential a
               = AppendTag field_credential BytesType @ AppendBytes (encode_Credential c) @ t"
      using Some ua by (simp add: encode_AuthenticatedCredential_def t_def)
    have ne: "AppendTag field_credential BytesType @ AppendBytes (encode_Credential c) @ t \<noteq> []"
      by (simp add: AppendTag_not_Nil)
    have f: "field_AuthenticatedCredential empty_envelope
               (AppendTag field_credential BytesType @ AppendBytes (encode_Credential c) @ t)
             = Some (empty_envelope\<lparr>Credential := Some c\<rparr>, t)"
      by (rule field_AuthenticatedCredential_credential[OF le uc ln']) (simp add: empty_envelope_def)
    from unmarshal_AuthenticatedCredential_field[OF ne f] e
      2[of "empty_envelope\<lparr>Credential := Some c\<rparr>"] Some ua
    show ?thesis by (simp add: empty_envelope_def)
  qed
  then show ?thesis by (simp add: wire_Unmarshal_def)
qed

subsection \<open>The token pair\<close>

lemma merge_empty_Credential: "merge_Credential empty_Credential c = c"
  by (simp add: merge_Credential_def empty_Credential_def)

lemma Base64URLDecode_eq:
  assumes u: "ReadAll grow (NewDecoder username) = Inr nodeID"
    and pw: "ReadAll grow (NewDecoder password) = Inr decoded"
    and m: "wire_Unmarshal decoded = Inr m" and q: "ac < length (envelopes s)"
  shows "Base64URLDecode grow ac username password s =
     (case Credential m of
        None \<Rightarrow>
          (Panic,
           s\<lparr>envelopes := (envelopes s @ [\<lparr>Credential = None, Mac = Mac m, unknownFieldsAC = unknownFieldsAC m\<rparr>])
                   [ac := \<lparr>Credential = None, Mac = Mac m, unknownFieldsAC = unknownFieldsAC m\<rparr>]\<rparr>)
      | Some c \<Rightarrow>
          (Ok (),
           s\<lparr>credentials := credentials s @ [c, c\<lparr>NodeId := nodeID\<rparr>],
             envelopes := (envelopes s @ [\<lparr>Credential = Some (length (credentials s)), Mac = Mac m,
                                          unknownFieldsAC = unknownFieldsAC m\<rparr>])
                   [ac := \<lparr>Credential = Some (Suc (length (credentials s))), Mac = Mac m,
                           unknownFieldsAC = unknownFieldsAC m\<rparr>]\<rparr>))"
proof (cases "Credential m")
  case None
  with u pw m q show ?thesis
    by (simp add: Base64URLDecode_def new_envelope_def proto_Unmarshal_def store_message_def
        modify_envelope_def envelope_at_def Reset_def proto_Merge_def inner_def empty_envelope_def
        nth_append Let_def)
next
  case (Some c)
  with u pw m q show ?thesis
    by (simp add: Base64URLDecode_def new_envelope_def proto_Unmarshal_def store_message_def
        modify_envelope_def envelope_at_def Reset_def proto_Merge_def inner_def empty_envelope_def
        nth_append Let_def new_Credential_def credential_at_def modify_credential_def
        merge_empty_Credential list_update_append)
qed

lemma Base64URLEncodePassword_eq:
  assumes "envelope_at s ac = Some a" and "Credential a = Some q" and "credential_at s q = Some c"
  shows "Base64URLEncodePassword pm ac s =
     (case pm (AuthenticatedCredentialMessage
                 (Some \<lparr>Credential = Some (c\<lparr>NodeId := []\<rparr>), Mac = Mac a,
                        unknownFieldsAC = unknownFieldsAC a\<rparr>)) of
        Inl err \<Rightarrow> (Err err, modify_credential q (\<lambda>x. x\<lparr>NodeId := []\<rparr>) s)
      | Inr marshaled \<Rightarrow> (Ok (base64_Encode marshaled), s))"
proof -
  from assms(3) have q: "q < length (credentials s)" and c: "credentials s ! q = c"
    by (simp_all add: credential_at_def split: if_splits)
  from assms(1) have ac: "ac < length (envelopes s)" and a: "envelopes s ! ac = a"
    by (simp_all add: envelope_at_def split: if_splits)
  have blank: "load (modify_credential q (\<lambda>x. x\<lparr>NodeId := []\<rparr>) s) ac =
      Some \<lparr>Credential = Some (c\<lparr>NodeId := []\<rparr>), Mac = Mac a, unknownFieldsAC = unknownFieldsAC a\<rparr>"
    using q c ac a assms(2)
    by (simp add: load_def envelope_at_def modify_credential_def deref_def inner_def credential_at_def)
  have restore: "modify_credential q (\<lambda>x. x\<lparr>NodeId := NodeId c\<rparr>)
      (modify_credential q (\<lambda>x. x\<lparr>NodeId := []\<rparr>) s) = s"
  proof -
    have "(credentials s)[q := c] = credentials s"
      using c by (simp only: list_update_id[of "credentials s" q, unfolded c])
    then show ?thesis using q c by (simp add: modify_credential_def)
  qed
  show ?thesis
    using assms
    by (simp add: Base64URLEncodePassword_def inner_def blank restore Let_def split: sum.splits)
qed

lemma wire_Marshal_AuthenticatedCredential [simp]:
  "wire_Marshal (AuthenticatedCredentialMessage (Some a)) = Inr (encode_AuthenticatedCredential a)"
  by (simp add: wire_Marshal_def)

text \<open>
  C4. The token pair round-trips: for a credential in memory that has an inner message
  and is plain, the user name and the password that \<^verbatim>\<open>Base64URLEncodeUsername\<close> and
  \<^verbatim>\<open>Base64URLEncodePassword\<close> give for it (the latter leaving the memory as it was)
  are decoded by \<^verbatim>\<open>Base64URLDecode\<close>, into any receiver and whatever the growth of
  the buffer it reads into, to a credential that reads the same: node id, operator
  type, timestamp and mac.
\<close>
theorem token_pair_round_trip:
  assumes "load s p = Some v" and "Credential v = Some c" and "plain v"
    and "q < length (envelopes s)"
  shows "\<exists>username password s'.
           Base64URLEncodeUsername p s = Ok username \<and>
           Base64URLEncodePassword wire_Marshal p s = (Ok password, s) \<and>
           Base64URLDecode grow q username password s = (Ok (), s') \<and>
           load s' q = Some v"
proof -
  from assms(1) obtain a where env: "envelope_at s p = Some a" and v: "v = deref s a"
    by (auto simp: load_def)
  from v assms(2) have inn: "inner s a = Some c" by (simp add: deref_def)
  then obtain k where k: "Credential a = Some k" and ck: "credential_at s k = Some c"
    by (auto simp: inner_def split: option.splits)
  define v0 where "v0 = \<lparr>Credential = Some (c\<lparr>NodeId := []\<rparr>), Mac = Mac a,
                           unknownFieldsAC = unknownFieldsAC a\<rparr>"
  have pv0: "plain v0"
    using assms(3) assms(2) v by (simp add: plain_def v0_def deref_def)
  have user: "Base64URLEncodeUsername p s = Ok (base64_Encode (NodeId c))"
    by (simp add: Base64URLEncodeUsername_def env inn)
  have pass: "Base64URLEncodePassword wire_Marshal p s
                = (Ok (base64_Encode (encode_AuthenticatedCredential v0)), s)"
    by (simp add: Base64URLEncodePassword_eq[OF env k ck] v0_def)
  note dec = Base64URLDecode_eq[OF ReadAll_Encode ReadAll_Encode
      wire_Unmarshal_encode[OF pv0] assms(4)]
  define s' where "s' = s\<lparr>credentials := credentials s @ [c\<lparr>NodeId := []\<rparr>, c],
             envelopes := (envelopes s @ [\<lparr>Credential = Some (length (credentials s)), Mac = Mac a,
                                          unknownFieldsAC = unknownFieldsAC a\<rparr>])
                   [q := \<lparr>Credential = Some (Suc (length (credentials s))), Mac = Mac a,
                          unknownFieldsAC = unknownFieldsAC a\<rparr>]\<rparr>"
  have d: "Base64URLDecode grow q (base64_Encode (NodeId c))
             (base64_Encode (encode_AuthenticatedCredential v0)) s = (Ok (), s')"
    unfolding dec by (simp add: v0_def s'_def)
  have "load s' q = Some \<lparr>Credential = Some c, Mac = Mac a, unknownFieldsAC = unknownFieldsAC a\<rparr>"
    using assms(4)
    by (simp add: s'_def load_def envelope_at_def deref_def inner_def credential_at_def nth_append)
  also have "\<dots> = Some v" using v inn by (simp add: deref_def)
  finally have l: "load s' q = Some v" .
  from user pass d l show ?thesis by blast
qed

theorem token_pair_round_trip_witness:
  "load sample_store 0 = Some \<lparr>Credential = Some sample_credential, Mac = [9, 8, 7, 6], unknownFieldsAC = []\<rparr> \<and>
   plain \<lparr>Credential = Some sample_credential, Mac = [9, 8, 7, 6], unknownFieldsAC = []\<rparr> \<and>
   1 < length (envelopes sample_store) \<and>
   (\<exists>username password s'.
      Base64URLEncodeUsername 0 sample_store = Ok username \<and>
      Base64URLEncodePassword wire_Marshal 0 sample_store = (Ok password, sample_store) \<and>
      Base64URLDecode (\<lambda>c. 2 * c) 1 username password sample_store = (Ok (), s') \<and>
      load s' 1 = Some \<lparr>Credential = Some sample_credential, Mac = [9, 8, 7, 6], unknownFieldsAC = []\<rparr>)"
proof -
  let ?v = "\<lparr>Credential = Some sample_credential, Mac = [9, 8, 7, 6 :: byte], unknownFieldsAC = []\<rparr>"
  have l: "load sample_store 0 = Some ?v"
    by (simp add: load_def envelope_at_def deref_def inner_def credential_at_def sample_store_def)
  have c: "Credential ?v = Some sample_credential" by simp
  have p: "plain ?v" by (simp add: plain_def sample_credential_def)
  have q: "1 < length (envelopes sample_store)" by (simp add: sample_store_def)
  from token_pair_round_trip[OF l c p q, where grow = "\<lambda>c. 2 * c"] l p q show ?thesis by blast
qed

text \<open>
  C6. The claim asks that \<^verbatim>\<open>Base64URLDecode\<close> gives a credential or an error for every
  pair of strings. The code does not: on the pair of empty strings the decoded payload
  holds no inner message, the receiver is reset and merged with a message that has none,
  and the assignment to \<^verbatim>\<open>ac.Credential.NodeId\<close> dereferences nil. The call panics, and
  the receiver is left reset.
\<close>
theorem Base64URLDecode_without_credential_panics:
  "Base64URLDecode grow 0 [] [] \<lparr>credentials = [], envelopes = [empty_envelope]\<rparr>
     = (Panic, \<lparr>credentials = [], envelopes = [empty_envelope, empty_envelope]\<rparr>)"
  by code_simp

lemma Base64URLDecode_empty_password:
  "ac < length (envelopes s) \<Longrightarrow> ReadAll grow (NewDecoder username) = Inr nodeID \<Longrightarrow>
   fst (Base64URLDecode grow ac username [] s) = Panic"
proof -
  assume ac: "ac < length (envelopes s)" and u: "ReadAll grow (NewDecoder username) = Inr nodeID"
  note pw = ReadAll_Nil[of grow]
  have m: "wire_Unmarshal [] = Inr empty_envelope"
    by (simp add: wire_Unmarshal_def unmarshal_AuthenticatedCredential_Nil)
  show ?thesis
    unfolding Base64URLDecode_eq[OF u pw m ac] by (simp add: empty_envelope_def)
qed

text \<open>
  C8. The claim asks that \<^verbatim>\<open>Base64URLEncodePassword\<close> restores the node id on every
  path. The code restores it after a successful \<^verbatim>\<open>proto.Marshal\<close> only: when the
  marshaller returns an error the method returns that error at once, and the node id of
  the credential stays blank.
\<close>
theorem Base64URLEncodePassword_failure_leaves_node_id_blank:
  "Base64URLEncodePassword (\<lambda>_. Inl MarshalFailure) 0
     \<lparr>credentials = [\<lparr>NodeId = [1, 2, 3], Timestamp = 5, OperatorType = 1, unknownFields = []\<rparr>],
      envelopes = [\<lparr>Credential = Some 0, Mac = [9], unknownFieldsAC = []\<rparr>]\<rparr>
   = (Err MarshalFailure,
      \<lparr>credentials = [\<lparr>NodeId = [], Timestamp = 5, OperatorType = 1, unknownFields = []\<rparr>],
       envelopes = [\<lparr>Credential = Some 0, Mac = [9], unknownFieldsAC = []\<rparr>]\<rparr>)"
  by code_simp

lemma Base64URLEncodePassword_restores:
  assumes "pm (AuthenticatedCredentialMessage (load (modify_credential q (\<lambda>x. x\<lparr>NodeId := []\<rparr>) s) ac))
             = Inr marshaled"
    and "envelope_at s ac = Some a" and "Credential a = Some q"
  shows "snd (Base64URLEncodePassword pm ac s) = s"
proof (cases "credential_at s q")
  case None
  with assms show ?thesis by (simp add: Base64URLEncodePassword_def inner_def)
next
  case (Some c)
  from Some have q: "q < length (credentials s)" and c: "credentials s ! q = c"
    by (simp_all add: credential_at_def split: if_splits)
  from assms(2) have ac: "ac < length (envelopes s)" and a: "envelopes s ! ac = a"
    by (simp_all add: envelope_at_def split: if_splits)
  have "load (modify_credential q (\<lambda>x. x\<lparr>NodeId := []\<rparr>) s) ac =
      Some \<lparr>Credential = Some (c\<lparr>NodeId := []\<rparr>), Mac = Mac a, unknownFieldsAC = unknownFieldsAC a\<rparr>"
    using q c ac a assms(3)
    by (simp add: load_def envelope_at_def modify_credential_def deref_def inner_def credential_at_def)
  with assms(1) show ?thesis
    by (simp add: Base64URLEncodePassword_eq[OF assms(2,3) Some])
qed

subsection \<open>The JSON document\<close>

lemma fold_keys:
  "foldName ''node_id'' = ''NODE_ID''" "foldName ''timestamp'' = ''TIMESTAMP''"
  "foldName ''operator_type'' = ''OPERATOR_TYPE''" "foldName ''mac'' = ''MAC''"
  by code_simp+

lemma fold_long_s: "foldName (''time'' @ [CHR 0xC5, CHR 0xBF] @ ''tamp'') = ''TIMESTAMP''"
  by code_simp

lemma json_int_sint_64: "json_int 64 (JNumber (sint (w :: 64 word))) f old = Inr w"
  using sint_ge[of w] sint_lt[of w] by (simp add: json_int_def)

lemma json_int_sint_32: "json_int 32 (JNumber (sint (w :: 32 word))) f old = Inr w"
  using sint_ge[of w] sint_lt[of w] by (simp add: json_int_def)

lemma member_node_id:
  "json_members ((''node_id'', JString n) # kvs) j = json_members kvs (j\<lparr>j_NodeID := n\<rparr>)"
  by (simp add: fold_keys json_string_def del: foldName.simps)

lemma member_timestamp:
  "json_members ((''timestamp'', v) # kvs) j =
     (case json_int 64 v ''timestamp'' (j_Timestamp j) of
        Inl err \<Rightarrow> Inl err | Inr n \<Rightarrow> json_members kvs (j\<lparr>j_Timestamp := n\<rparr>))"
  by (simp add: fold_keys del: foldName.simps)

lemma member_operator_type:
  "json_members ((''operator_type'', v) # kvs) j =
     (case json_int 32 v ''operator_type'' (j_OperatorType j) of
        Inl err \<Rightarrow> Inl err | Inr n \<Rightarrow> json_members kvs (j\<lparr>j_OperatorType := n\<rparr>))"
  by (simp add: fold_keys del: foldName.simps)

lemma member_mac:
  "json_members ((''mac'', JString m) # kvs) j = json_members kvs (j\<lparr>j_Mac := m\<rparr>)"
  by (simp add: fold_keys json_string_def del: foldName.simps)

lemma member_long_s:
  "json_members [(''time'' @ [CHR 0xC5, CHR 0xBF] @ ''tamp'', JNumber 5)] j = Inr (j\<lparr>j_Timestamp := 5\<rparr>)"
proof -
  have "json_int 64 (JNumber 5) ''timestamp'' (j_Timestamp j) = Inr (5 :: 64 word)"
    by (simp add: json_int_def)
  then show ?thesis
    using fold_long_s by (simp add: fold_keys del: foldName.simps)
qed

lemma json_Unmarshal_Marshal: "json_Unmarshal (json_Marshal j) = Inr j"
  by (simp add: json_Unmarshal_def json_Marshal_def member_node_id member_timestamp
      member_operator_type member_mac json_int_sint_64 json_int_sint_32
      del: json_members.simps(2))





lemma TrimPrefix_0x_Cons: "TrimPrefix (CHR ''0'' # CHR ''x'' # h) ''0x'' = h"
  by (simp add: TrimPrefix_def)









end
